theory Spec2Isabelle
  imports Main
begin

unbundle bit_operations_syntax

section \<open>Data model of the Yao protocol driver\<close>

text \<open>
  The development follows \<^verbatim>\<open>main.py\<close> (the parties Alice and Bob) and
  \<^verbatim>\<open>server.py\<close> (the request handler).  Wire identifiers are the integers of the
  circuit file, keys and socket payloads are byte strings, and the bits that Python
  combines with \<^verbatim>\<open>^\<close> are unbounded integers.
\<close>

type_synonym wire = int
type_synonym bytes = string
type_synonym key = bytes
type_synonym bit = int

datatype error = EOFError | KeyError | AttributeError | CircuitMalformed | DecryptionFailure

subsection \<open>The key payload of the server\<close>



subsection \<open>Encrypted bits (\<^verbatim>\<open>Alice._get_encr_bits\<close>)\<close>

text \<open>\<^verbatim>\<open>return ((key0, 0 ^ pbit), (key1, 1 ^ pbit))\<close>\<close>

definition get_encr_bits :: "bit \<Rightarrow> key \<Rightarrow> key \<Rightarrow> (key \<times> bit) \<times> (key \<times> bit)" where
  "get_encr_bits pbit key0 key1 = ((key0, 0 XOR pbit), (key1, 1 XOR pbit))"

subsection \<open>Interactive input\<close>

text \<open>
  One line typed by the user, as \<^verbatim>\<open>int(input(...))\<close> sees it: either \<^verbatim>\<open>int\<close> raises
  \<^verbatim>\<open>ValueError\<close>, or it returns an integer.  The terminal is the list of the lines
  still to come; \<^verbatim>\<open>input\<close> raises \<^verbatim>\<open>EOFError\<close> when it is exhausted.
\<close>

datatype line = NotInt | IntVal int

text \<open>
  The inner \<^verbatim>\<open>while True\<close> loop of both input functions: read until a line is the
  integer 0 or 1, and return it with the lines that remain.
\<close>

fun read_bit :: "line list \<Rightarrow> error + (int \<times> line list)" where
  "read_bit [] = Inl EOFError"
| "read_bit (NotInt # ls) = read_bit ls"
| "read_bit (IntVal v # ls) = (if v \<notin> {0, 1} then read_bit ls else Inr (v, ls))"

text \<open>\<^verbatim>\<open>Bob.get_bob_inputs\<close>: the loop over \<^verbatim>\<open>b_wires\<close>, with the dictionary built so far.\<close>

fun bob_inputs_loop ::
  "wire list \<Rightarrow> line list \<Rightarrow> (wire \<rightharpoonup> int) \<Rightarrow> error + ((wire \<rightharpoonup> int) \<times> line list)" where
  "bob_inputs_loop [] ls b_inputs_clear = Inr (b_inputs_clear, ls)"
| "bob_inputs_loop (wire # ws) ls b_inputs_clear =
     (case read_bit ls of
        Inl e \<Rightarrow> Inl e
      | Inr (v, ls') \<Rightarrow> bob_inputs_loop ws ls' (b_inputs_clear(wire \<mapsto> v)))"

definition get_bob_inputs ::
  "wire list \<Rightarrow> line list \<Rightarrow> error + ((wire \<rightharpoonup> int) \<times> line list)" where
  "get_bob_inputs b_wires ls = bob_inputs_loop b_wires ls Map.empty"

text \<open>
  \<^verbatim>\<open>keys[value]\<close> for a key pair and a value that the loop has restricted to 0 or 1.
\<close>

definition key_for :: "key \<times> key \<Rightarrow> int \<Rightarrow> key" where
  "key_for ks v = (if v = 0 then fst ks else snd ks)"

text \<open>
  \<^verbatim>\<open>Alice.get_alice_inputs\<close>: after the bit is read, \<^verbatim>\<open>self.entry["keys"][wire]\<close> and
  \<^verbatim>\<open>self.pbits[wire]\<close> are looked up (a missing wire raises \<^verbatim>\<open>KeyError\<close>) and the wire
  is bound to \<^verbatim>\<open>(keys[value], self.pbits[wire] ^ value)\<close>.
\<close>

fun alice_inputs_loop ::
  "(wire \<rightharpoonup> key \<times> key) \<Rightarrow> (wire \<rightharpoonup> bit) \<Rightarrow> wire list \<Rightarrow> line list \<Rightarrow>
   (wire \<rightharpoonup> key \<times> bit) \<Rightarrow> error + ((wire \<rightharpoonup> key \<times> bit) \<times> line list)" where
  "alice_inputs_loop keys pbits [] ls a_inputs = Inr (a_inputs, ls)"
| "alice_inputs_loop keys pbits (wire # ws) ls a_inputs =
     (case read_bit ls of
        Inl e \<Rightarrow> Inl e
      | Inr (v, ls') \<Rightarrow>
          (case keys wire of
             None \<Rightarrow> Inl KeyError
           | Some ks \<Rightarrow>
               (case pbits wire of
                  None \<Rightarrow> Inl KeyError
                | Some pbit \<Rightarrow>
                    alice_inputs_loop keys pbits ws ls'
                      (a_inputs(wire \<mapsto> (key_for ks v, pbit XOR v))))))"

definition get_alice_inputs ::
  "(wire \<rightharpoonup> key \<times> key) \<Rightarrow> (wire \<rightharpoonup> bit) \<Rightarrow> wire list \<Rightarrow> line list \<Rightarrow>
   error + ((wire \<rightharpoonup> key \<times> bit) \<times> line list)" where
  "get_alice_inputs keys pbits a_wires ls = alice_inputs_loop keys pbits a_wires ls Map.empty"

subsection \<open>Circuits, garbled circuits and the garbler's entry\<close>

text \<open>
  Modelled from the spec: the Gate of \<section>3, missing with \<^verbatim>\<open>yao.py\<close>, which is what
  walks the gate list.  A gate has an operator, an ordered list of input wires and one
  output wire, which names the gate.
\<close>

datatype gate_type = And_gate | Or_gate | Xor_gate | Not_gate

record gate =
  gate_id :: wire
  gate_type :: gate_type
  gate_in :: "wire list"

text \<open>
  A circuit is the dictionary read from the circuit file.  \<^verbatim>\<open>main.py\<close> reads
  \<^verbatim>\<open>circuit["id"]\<close>, \<^verbatim>\<open>circuit["out"]\<close>, \<^verbatim>\<open>circuit.get("alice", [])\<close> and
  \<^verbatim>\<open>circuit.get("bob", [])\<close> (an absent partition is the empty list); the gate list is
  what the garbler and the evaluator walk.
\<close>

record circuit =
  circuit_id :: string
  alice :: "wire list"
  bob :: "wire list"
  out :: "wire list"
  gates :: "gate list"

text \<open>
  Modelled from the spec: the ciphertexts of a GarbledTableEntry (\<section>3), missing with
  \<^verbatim>\<open>yao.py\<close>.  They are symbolic: a plaintext \<open>(key, external bit)\<close> pair, wrapped in
  one encryption layer per input wire of the gate.  The garbled table of a gate binds a
  row index to the ciphertext placed there.
\<close>

datatype ciphertext = Plain key bit | Encrypted key ciphertext

type_synonym garbled_tables = "wire \<rightharpoonup> (nat \<rightharpoonup> ciphertext)"
type_synonym wire_keys = "wire \<rightharpoonup> key \<times> key"
type_synonym pbits = "wire \<rightharpoonup> bit"

text \<open>
  What \<^verbatim>\<open>YaoGarbler.__init__\<close> reads off a \<^verbatim>\<open>yao.GarbledCircuit\<close>: the results of
  \<^verbatim>\<open>get_pbits()\<close>, \<^verbatim>\<open>get_garbled_tables()\<close> and \<^verbatim>\<open>get_keys()\<close>.
\<close>

record garbled_circuit =
  get_pbits :: pbits
  get_garbled_tables :: garbled_tables
  get_keys :: wire_keys

record entry =
  entry_circuit :: circuit
  entry_garbled_circuit :: garbled_circuit
  entry_garbled_tables :: garbled_tables
  entry_keys :: wire_keys
  entry_pbits :: pbits
  entry_pbits_out :: pbits

text \<open>
  \<^verbatim>\<open>{w: self.pbits[w] for w in circuit["out"]}\<close>: the comprehension walks the output
  wires in order; a wire without a permutation bit raises \<^verbatim>\<open>KeyError\<close>.
\<close>

fun pbits_out_loop :: "pbits \<Rightarrow> wire list \<Rightarrow> pbits \<Rightarrow> error + pbits" where
  "pbits_out_loop pb [] acc = Inr acc"
| "pbits_out_loop pb (w # ws) acc =
     (case pb w of None \<Rightarrow> Inl KeyError | Some p \<Rightarrow> pbits_out_loop pb ws (acc(w \<mapsto> p)))"

text \<open>\<^verbatim>\<open>YaoGarbler.__init__\<close>, given the garbled circuit that the constructor built.\<close>

definition YaoGarbler_init :: "circuit \<Rightarrow> garbled_circuit \<Rightarrow> error + entry" where
  "YaoGarbler_init c gc =
     (case pbits_out_loop (get_pbits gc) (out c) Map.empty of
        Inl e \<Rightarrow> Inl e
      | Inr po \<Rightarrow>
          Inr \<lparr> entry_circuit = c,
                entry_garbled_circuit = gc,
                entry_garbled_tables = get_garbled_tables gc,
                entry_keys = get_keys gc,
                entry_pbits = get_pbits gc,
                entry_pbits_out = po \<rparr>)"

subsection \<open>Alice\<close>

text \<open>The values that the dictionaries on the socket carry.\<close>

datatype payload =
    Circuit circuit
  | Garbled garbled_circuit
  | Tables garbled_tables
  | Keys wire_keys
  | Pbits pbits

type_synonym garbled_bundle = "string \<rightharpoonup> payload"

record alice_state =
  alice_entry :: entry
  alice_ot_enabled :: bool
  alice_inputs :: "wire \<rightharpoonup> key \<times> bit"

text \<open>
  \<^verbatim>\<open>Alice.__init__\<close>: the garbler's entry, the transfer object with its \<^verbatim>\<open>enabled\<close>
  flag, then Alice's inputs read from the terminal.
\<close>

definition Alice_init ::
  "circuit \<Rightarrow> garbled_circuit \<Rightarrow> bool \<Rightarrow> line list \<Rightarrow> error + (alice_state \<times> line list)" where
  "Alice_init c gc oblivious_transfer ls =
     (case YaoGarbler_init c gc of
        Inl e \<Rightarrow> Inl e
      | Inr en \<Rightarrow>
          (case get_alice_inputs (entry_keys en) (entry_pbits en) (alice (entry_circuit en)) ls of
             Inl e \<Rightarrow> Inl e
           | Inr (a_inputs, ls') \<Rightarrow>
               Inr (\<lparr> alice_entry = en,
                      alice_ot_enabled = oblivious_transfer,
                      alice_inputs = a_inputs \<rparr>, ls')))"

text \<open>The dictionary \<^verbatim>\<open>to_send\<close> of \<^verbatim>\<open>Alice.start\<close>.\<close>

definition to_send :: "entry \<Rightarrow> garbled_bundle" where
  "to_send en =
     [''circuit'' \<mapsto> Circuit (entry_circuit en),
      ''garbled_tables'' \<mapsto> Tables (entry_garbled_tables en),
      ''pbits_out'' \<mapsto> Pbits (entry_pbits_out en)]"

text \<open>
  \<^verbatim>\<open>b_keys\<close> of \<^verbatim>\<open>Alice.print\<close>: every item \<^verbatim>\<open>w, (key0, key1)\<close> of \<^verbatim>\<open>keys\<close> with
  \<^verbatim>\<open>w in b_wires\<close> is bound to \<^verbatim>\<open>_get_encr_bits(pbits[w], key0, key1)\<close>; a selected wire
  without a permutation bit raises \<^verbatim>\<open>KeyError\<close>.
\<close>

definition b_keys_of ::
  "wire_keys \<Rightarrow> pbits \<Rightarrow> wire list \<Rightarrow> error + (wire \<rightharpoonup> (key \<times> bit) \<times> (key \<times> bit))" where
  "b_keys_of keys pb b_wires =
     (if \<exists>w \<in> set b_wires. keys w \<noteq> None \<and> pb w = None then Inl KeyError
      else Inr (\<lambda>w. if w \<in> set b_wires
                     then (case keys w of
                             None \<Rightarrow> None
                           | Some (key0, key1) \<Rightarrow>
                               (case pb w of
                                  None \<Rightarrow> None
                                | Some pbit \<Rightarrow> Some (get_encr_bits pbit key0 key1)))
                     else None))"

text \<open>
  What Alice does on the socket: \<^verbatim>\<open>self.socket.send_wait(to_send)\<close> in \<^verbatim>\<open>start\<close>, and
  the call \<^verbatim>\<open>self.ot.get_result(a_inputs, b_keys)\<close> in \<^verbatim>\<open>print\<close>, whose first argument is
  what goes to Bob as it is and whose second argument is the table for the transfer.
  The model of \<^verbatim>\<open>print\<close> ends with that call; formatting the result it returns is left
  out.
\<close>

datatype alice_event =
    Send_wait garbled_bundle
  | Ot_get_result "wire \<rightharpoonup> key \<times> bit" "wire \<rightharpoonup> (key \<times> bit) \<times> (key \<times> bit)"

definition Alice_print :: "alice_state \<Rightarrow> error + alice_event" where
  "Alice_print st =
     (let en = alice_entry st; c = entry_circuit en in
      case b_keys_of (entry_keys en) (entry_pbits en) (bob c) of
        Inl e \<Rightarrow> Inl e
      | Inr b_keys \<Rightarrow> Inr (Ot_get_result (alice_inputs st) b_keys))"

text \<open>
  \<^verbatim>\<open>Alice.start\<close>: the events in order, and the exception raised before the transfer
  call, if any.
\<close>

definition Alice_start :: "alice_state \<Rightarrow> alice_event list \<times> error option" where
  "Alice_start st =
     (case Alice_print st of
        Inl e \<Rightarrow> ([Send_wait (to_send (alice_entry st))], Some e)
      | Inr ev \<Rightarrow> ([Send_wait (to_send (alice_entry st)), ev], None))"

subsection \<open>Bob\<close>

text \<open>
  What Bob does in \<^verbatim>\<open>listen\<close>: the loop takes the next entry from
  \<^verbatim>\<open>self.socket.poll_socket()\<close>, sends \<^verbatim>\<open>True\<close>, and \<^verbatim>\<open>send_evaluation\<close> ends in the
  call \<^verbatim>\<open>self.ot.send_result(circuit, garbled_tables, pbits_out, b_inputs_clear)\<close>.
\<close>

datatype bob_event =
    Next_entry garbled_bundle
  | Send_True
  | Ot_send_result circuit payload payload "wire \<rightharpoonup> int"

text \<open>
  \<^verbatim>\<open>Bob.send_evaluation\<close>.  The three subscripts raise \<^verbatim>\<open>KeyError\<close> on a missing key,
  in the order \<^verbatim>\<open>"circuit"\<close>, \<^verbatim>\<open>"pbits_out"\<close>, \<^verbatim>\<open>"garbled_tables"\<close>.  Then
  \<^verbatim>\<open>circuit.get\<close> needs a dictionary (an object has no \<^verbatim>\<open>get\<close>), and a dictionary keyed
  by wires has no \<^verbatim>\<open>"bob"\<close>, so no line is read, and no \<^verbatim>\<open>"id"\<close> for the message
  printed before the evaluation.
\<close>

definition send_evaluation ::
  "garbled_bundle \<Rightarrow> line list \<Rightarrow> error + (bob_event \<times> line list)" where
  "send_evaluation en ls =
     (case en ''circuit'' of
        None \<Rightarrow> Inl KeyError
      | Some cv \<Rightarrow>
          (case en ''pbits_out'' of
             None \<Rightarrow> Inl KeyError
           | Some pbits_out \<Rightarrow>
               (case en ''garbled_tables'' of
                  None \<Rightarrow> Inl KeyError
                | Some garbled_tables \<Rightarrow>
                    (case cv of
                       Circuit c \<Rightarrow>
                         (case get_bob_inputs (bob c) ls of
                            Inl e \<Rightarrow> Inl e
                          | Inr (b_inputs_clear, ls') \<Rightarrow>
                              Inr (Ot_send_result c garbled_tables pbits_out b_inputs_clear, ls'))
                     | Garbled _ \<Rightarrow> Inl AttributeError
                     | _ \<Rightarrow> Inl KeyError))))"

text \<open>
  \<^verbatim>\<open>Bob.listen\<close> over the entries that \<^verbatim>\<open>poll_socket()\<close> yields: the events in order,
  and the exception that ended the loop, if any.
\<close>

fun listen :: "garbled_bundle list \<Rightarrow> line list \<Rightarrow> bob_event list \<times> error option" where
  "listen [] ls = ([], None)"
| "listen (en # rest) ls =
     (case send_evaluation en ls of
        Inl e \<Rightarrow> ([Next_entry en, Send_True], Some e)
      | Inr (ev, ls') \<Rightarrow>
          (case listen rest ls' of (evs, r) \<Rightarrow> (Next_entry en # Send_True # ev # evs, r)))"

subsection \<open>The entry point\<close>

text \<open>
  The namespace that \<^verbatim>\<open>parser.parse_args()\<close> returns: the positional \<^verbatim>\<open>party\<close> and the
  \<^verbatim>\<open>store_true\<close> flag \<^verbatim>\<open>--no-oblivious-transfer\<close>.
\<close>

record args =
  party :: string
  no_oblivious_transfer :: bool

text \<open>
  \<^verbatim>\<open>main(party, oblivious_transfer)\<close>, up to the party object it constructs.  The
  circuit is the outcome of Alice's selection dialogue: \<open>None\<close> when the circuits
  directory holds no circuit file.
\<close>

datatype action =
    No_circuit_files
  | Construct_Alice circuit bool
  | Construct_Bob bool
  | Unknown_party string

definition main :: "string \<Rightarrow> bool \<Rightarrow> circuit option \<Rightarrow> action" where
  "main p oblivious_transfer chosen =
     (if p = ''alice'' then
        (case chosen of
           None \<Rightarrow> No_circuit_files
         | Some c \<Rightarrow> Construct_Alice c oblivious_transfer)
      else if p = ''bob'' then Construct_Bob oblivious_transfer
      else Unknown_party p)"

text \<open>The last line of the script: \<^verbatim>\<open>main(args.party, oblivious_transfer= True)\<close>.\<close>

definition script_main :: "args \<Rightarrow> circuit option \<Rightarrow> action" where
  "script_main a chosen = main (party a) True chosen"

subsection \<open>Auxiliary notions for the statements\<close>

text \<open>The lines that the input loops accept: the integers 0 and 1.\<close>

definition valid_lines :: "line list \<Rightarrow> line list" where
  "valid_lines ls = filter (\<lambda>l. l = IntVal 0 \<or> l = IntVal 1) ls"

text \<open>
  The bits that the input loops accept from the terminal, in the order in which they
  are entered: the \<open>i\<close>-th prompt that is answered is answered with the \<open>i\<close>-th of them.
\<close>

fun entered_bits :: "line list \<Rightarrow> int list" where
  "entered_bits [] = []"
| "entered_bits (NotInt # ls) = entered_bits ls"
| "entered_bits (IntVal v # ls) = (if v \<notin> {0, 1} then entered_bits ls else v # entered_bits ls)"

text \<open>
  A wire of Alice is bound as \<^verbatim>\<open>get_alice_inputs\<close> binds it: to the key of an entered
  value that is 0 or 1, with the external bit \<open>pbit XOR value\<close>.
\<close>

definition alice_bound :: "wire_keys \<Rightarrow> pbits \<Rightarrow> (wire \<rightharpoonup> key \<times> bit) \<Rightarrow> wire \<Rightarrow> bool" where
  "alice_bound keys pb m w \<longleftrightarrow>
     (\<exists>v ks p. (v = 0 \<or> v = 1) \<and> keys w = Some ks \<and> pb w = Some p \<and> m w = Some (key_for ks v, p XOR v))"

subsection \<open>A sample circuit\<close>

text \<open>
  The circuit \<^verbatim>\<open>AND2\<close>: one wire of Alice, one wire of Bob, one AND gate and its
  output wire.
\<close>

definition and2_circuit :: circuit where
  "and2_circuit =
     \<lparr> circuit_id = ''AND2'', alice = [1], bob = [2], out = [3],
       gates = [\<lparr> gate_id = 3, gate_type = And_gate, gate_in = [1, 2] \<rparr>] \<rparr>"

text \<open>
  Keys and permutation bits for the three wires of \<^verbatim>\<open>AND2\<close>, as a garbled circuit
  hands them to \<^verbatim>\<open>YaoGarbler.__init__\<close>.
\<close>

definition and2_garbled :: garbled_circuit where
  "and2_garbled =
     \<lparr> get_pbits = [1 \<mapsto> 1, 2 \<mapsto> 0, 3 \<mapsto> 1],
       get_garbled_tables = Map.empty,
       get_keys = [1 \<mapsto> (''a0'', ''a1''), 2 \<mapsto> (''b0'', ''b1''), 3 \<mapsto> (''c0'', ''c1'')] \<rparr>"

subsection \<open>Reading Bob's trace\<close>

text \<open>The event that ends \<^verbatim>\<open>send_evaluation\<close>: the evaluation is sent.\<close>

fun is_evaluation :: "bob_event \<Rightarrow> bool" where
  "is_evaluation (Ot_send_result c t p b) = True"
| "is_evaluation _ = False"

text \<open>The evaluation event carries the three components of the entry it evaluates.\<close>

fun evaluation_of :: "garbled_bundle \<Rightarrow> bob_event \<Rightarrow> bool" where
  "evaluation_of en (Ot_send_result c t p b) =
     (en ''circuit'' = Some (Circuit c) \<and> en ''garbled_tables'' = Some t
      \<and> en ''pbits_out'' = Some p)"
| "evaluation_of en _ = False"

text \<open>The entries that the loop has taken from \<^verbatim>\<open>poll_socket()\<close>, in order.\<close>

fun consumed :: "bob_event list \<Rightarrow> garbled_bundle list" where
  "consumed [] = []"
| "consumed (Next_entry en # evs) = en # consumed evs"
| "consumed (_ # evs) = consumed evs"

text \<open>
  The wires of Bob that an entry asks inputs for: \<^verbatim>\<open>circuit.get("bob", [])\<close> of its
  circuit.
\<close>

definition bob_wires_of :: "garbled_bundle \<Rightarrow> wire list" where
  "bob_wires_of en = (case en ''circuit'' of Some (Circuit c) \<Rightarrow> bob c | _ \<Rightarrow> [])"

text \<open>
  An entry that \<^verbatim>\<open>send_evaluation\<close> can read: it has the three keys, and a circuit
  under \<^verbatim>\<open>"circuit"\<close>.
\<close>

definition well_formed_entry :: "garbled_bundle \<Rightarrow> bool" where
  "well_formed_entry en \<longleftrightarrow>
     (case en ''circuit'' of Some (Circuit c) \<Rightarrow> True | _ \<Rightarrow> False)
     \<and> en ''pbits_out'' \<noteq> None \<and> en ''garbled_tables'' \<noteq> None"

text \<open>A bundle for \<^verbatim>\<open>AND2\<close> as Bob receives it.\<close>

definition and2_bundle :: garbled_bundle where
  "and2_bundle =
     [''circuit'' \<mapsto> Circuit and2_circuit,
      ''garbled_tables'' \<mapsto> Tables Map.empty,
      ''pbits_out'' \<mapsto> Pbits [3 \<mapsto> 1]]"

section \<open>The garbler and the evaluator\<close>

text \<open>
  \<^verbatim>\<open>main.py\<close> and \<^verbatim>\<open>server.py\<close> call \<^verbatim>\<open>yao.GarbledCircuit\<close>, \<^verbatim>\<open>yao.evaluate\<close> and the
  \<^verbatim>\<open>ot\<close> module, which are not among the sources.  This section models them from the
  design document (\<section>3, \<section>4.1, \<section>4.2, \<section>4.3, \<section>7).
\<close>

subsection \<open>Key material\<close>

text \<open>
  Modelled from the spec: the randomness source of KeyMaterial, missing with
  \<^verbatim>\<open>yao.py\<close>.  One random permutation bit and one random key pair per wire.
\<close>

record randomness =
  rnd_pbit :: "wire \<Rightarrow> bool"
  rnd_keys :: "wire \<Rightarrow> key \<times> key"

text \<open>Modelled from the spec: the permutation bit of a wire, as the bit 0 or 1.\<close>

definition pbit_of :: "randomness \<Rightarrow> wire \<Rightarrow> bit" where
  "pbit_of rnd w = (if rnd_pbit rnd w then 1 else 0)"

text \<open>
  Modelled from the spec: the wires that a circuit declares, as an input of either
  party or as the output of a gate (\<section>3, Circuit).
\<close>

definition wires_of :: "circuit \<Rightarrow> wire list" where
  "wires_of c = alice c @ bob c @ map gate_id (gates c)"

subsection \<open>Well-formed circuits\<close>

text \<open>
  Modelled from the spec: a gate has one input wire for NOT and two otherwise
  (\<section>3, Gate).
\<close>

definition arity_ok :: "gate \<Rightarrow> bool" where
  "arity_ok g =
     (case gate_type g of
        Not_gate \<Rightarrow> length (gate_in g) = 1
      | _ \<Rightarrow> length (gate_in g) = 2)"

text \<open>
  Modelled from the spec: the circuit invariant of \<section>3, checked along the gate list.
  Every input wire of a gate is a circuit input or the output of an earlier gate, and
  no wire is written twice.  The first argument is the list of wires declared so far.
\<close>

fun check_gates :: "wire list \<Rightarrow> gate list \<Rightarrow> bool" where
  "check_gates declared [] = True"
| "check_gates declared (g # gs) =
     (arity_ok g \<and> set (gate_in g) \<subseteq> set declared \<and> gate_id g \<notin> set declared
      \<and> check_gates (gate_id g # declared) gs)"

text \<open>
  Modelled from the spec: a circuit is well formed when its input wires are declared
  once, its gates pass the check above and every output wire is declared.
\<close>

definition circuit_ok :: "circuit \<Rightarrow> bool" where
  "circuit_ok c \<longleftrightarrow>
     distinct (alice c @ bob c) \<and> check_gates (alice c @ bob c) (gates c)
     \<and> set (out c) \<subseteq> set (wires_of c)"

subsection \<open>Garbling\<close>

text \<open>
  Modelled from the spec: the true boolean output of a gate on semantic input values
  (\<section>4.1); \<open>None\<close> when the number of values is not the arity of the operator.
\<close>

fun gate_output :: "gate_type \<Rightarrow> bit list \<Rightarrow> bit option" where
  "gate_output And_gate [a, b] = Some (a AND b)"
| "gate_output Or_gate [a, b] = Some (a OR b)"
| "gate_output Xor_gate [a, b] = Some (a XOR b)"
| "gate_output Not_gate [a] = Some (1 - a)"
| "gate_output _ _ = None"

text \<open>
  Modelled from the spec: the row index of \<section>4.1, the sum of
  \<open>external_bit_i * 2^i\<close> over the input wires.
\<close>

fun row_of :: "bit list \<Rightarrow> nat" where
  "row_of [] = 0"
| "row_of (e # es) = nat e + 2 * row_of es"

text \<open>
  Modelled from the spec: the encryption of \<section>4.1 under the keys of the input values,
  the inner layer keyed by the first input and the outer layer by the last.
\<close>

fun seal :: "key list \<Rightarrow> ciphertext \<Rightarrow> ciphertext" where
  "seal [] m = m"
| "seal (k # ks) m = seal ks (Encrypted k m)"

text \<open>
  Modelled from the spec: removing one encryption layer succeeds under the key that
  made it, and fails otherwise (the scheme binds the ciphertext to the key).
\<close>

fun open_layer :: "key \<Rightarrow> ciphertext \<Rightarrow> ciphertext option" where
  "open_layer k (Encrypted k' m) = (if k = k' then Some m else None)"
| "open_layer k (Plain _ _) = None"

text \<open>
  Modelled from the spec: the inverse of the garbler's encryption (\<section>4.3), the outer
  layer first.
\<close>

fun unseal :: "key list \<Rightarrow> ciphertext \<Rightarrow> ciphertext option" where
  "unseal [] c = Some c"
| "unseal (k # ks) c = (case unseal ks c of None \<Rightarrow> None | Some m \<Rightarrow> open_layer k m)"

text \<open>
  Modelled from the spec: every combination of \<open>n\<close> semantic input values (\<section>4.1).
\<close>

fun bit_vectors :: "nat \<Rightarrow> bit list list" where
  "bit_vectors 0 = [[]]"
| "bit_vectors (Suc n) = concat (map (\<lambda>vs. [0 # vs, 1 # vs]) (bit_vectors n))"

text \<open>
  Modelled from the spec: one row of a garbled table (\<section>4.1).  For the semantic input
  values \<open>vals\<close> the gate's output value \<open>v\<close> is computed, the pair (output key for
  \<open>v\<close>, \<open>v XOR\<close> output pbit) is encrypted under the input keys of \<open>vals\<close>, and the
  ciphertext is placed at the row given by the external bits of the inputs.
\<close>

definition garble_row :: "randomness \<Rightarrow> gate \<Rightarrow> bit list \<Rightarrow> (nat \<rightharpoonup> ciphertext) \<Rightarrow> (nat \<rightharpoonup> ciphertext)" where
  "garble_row rnd g vals tbl =
     (case gate_output (gate_type g) vals of
        None \<Rightarrow> tbl
      | Some v \<Rightarrow>
          tbl(row_of (map2 (\<lambda>w x. x XOR pbit_of rnd w) (gate_in g) vals) \<mapsto>
              seal (map2 (\<lambda>w x. key_for (rnd_keys rnd w) x) (gate_in g) vals)
                (Plain (key_for (rnd_keys rnd (gate_id g)) v) (v XOR pbit_of rnd (gate_id g)))))"

text \<open>Modelled from the spec: the garbled table of a gate, one row per combination.\<close>

definition garble_gate :: "randomness \<Rightarrow> gate \<Rightarrow> (nat \<rightharpoonup> ciphertext)" where
  "garble_gate rnd g = fold (garble_row rnd g) (bit_vectors (length (gate_in g))) Map.empty"

text \<open>Modelled from the spec: the tables of all gates, in the order of the gate list.\<close>

fun garble_gates :: "randomness \<Rightarrow> gate list \<Rightarrow> garbled_tables \<Rightarrow> garbled_tables" where
  "garble_gates rnd [] tables = tables"
| "garble_gates rnd (g # gs) tables = garble_gates rnd gs (tables(gate_id g \<mapsto> garble_gate rnd g))"

text \<open>
  Modelled from the spec: \<^verbatim>\<open>yao.GarbledCircuit(circuit)\<close>, the contract
  \<open>garble(circuit) -> (GarbledTables, WireKeyPairs, Pbits)\<close> of \<section>4.1.  A circuit that
  breaks the invariant fails with \<open>CircuitMalformed\<close> before anything is garbled;
  otherwise every wire gets its permutation bit and key pair and every gate its table.
\<close>

definition GarbledCircuit :: "circuit \<Rightarrow> randomness \<Rightarrow> error + garbled_circuit" where
  "GarbledCircuit c rnd =
     (if \<not> circuit_ok c then Inl CircuitMalformed
      else Inr \<lparr> get_pbits = (\<lambda>w. if w \<in> set (wires_of c) then Some (pbit_of rnd w) else None),
                 get_garbled_tables = garble_gates rnd (gates c) Map.empty,
                 get_keys = (\<lambda>w. if w \<in> set (wires_of c) then Some (rnd_keys rnd w) else None) \<rparr>)"

subsection \<open>Evaluation\<close>

text \<open>
  Modelled from the spec: one step of the evaluator (\<section>4.3).  The row index comes from
  the external bits of the input wires, the addressed ciphertext is decrypted with the
  input keys, and the recovered (key, external bit) pair is recorded for the output
  wire.  A missing input, table or row, or a ciphertext that does not open to a
  well-formed pair, aborts the run.
\<close>

definition eval_gate ::
  "garbled_tables \<Rightarrow> (wire \<rightharpoonup> key \<times> bit) \<Rightarrow> gate \<Rightarrow> error + (wire \<rightharpoonup> key \<times> bit)" where
  "eval_gate tables ws g =
     (case those (map ws (gate_in g)) of
        None \<Rightarrow> Inl DecryptionFailure
      | Some kes \<Rightarrow>
          (case tables (gate_id g) of
             None \<Rightarrow> Inl DecryptionFailure
           | Some tbl \<Rightarrow>
               (case tbl (row_of (map snd kes)) of
                  None \<Rightarrow> Inl DecryptionFailure
                | Some ct \<Rightarrow>
                    (case unseal (map fst kes) ct of
                       Some (Plain k e) \<Rightarrow> Inr (ws(gate_id g \<mapsto> (k, e)))
                     | _ \<Rightarrow> Inl DecryptionFailure))))"

text \<open>Modelled from the spec: the walk over the gates in topological order (\<section>4.3).\<close>

fun eval_gates ::
  "garbled_tables \<Rightarrow> gate list \<Rightarrow> (wire \<rightharpoonup> key \<times> bit) \<Rightarrow> error + (wire \<rightharpoonup> key \<times> bit)" where
  "eval_gates tables [] ws = Inr ws"
| "eval_gates tables (g # gs) ws =
     (case eval_gate tables ws g of Inl e \<Rightarrow> Inl e | Inr ws' \<Rightarrow> eval_gates tables gs ws')"

text \<open>
  Modelled from the spec: the decoding of the outputs (\<section>4.3), for each output wire
  \<open>value = external_bit XOR pbit_out\<close>.
\<close>

fun decode_outputs ::
  "(wire \<rightharpoonup> key \<times> bit) \<Rightarrow> pbits \<Rightarrow> wire list \<Rightarrow> (wire \<rightharpoonup> bit) \<Rightarrow> error + (wire \<rightharpoonup> bit)" where
  "decode_outputs ws pbits_out [] res = Inr res"
| "decode_outputs ws pbits_out (w # rest) res =
     (case ws w of
        None \<Rightarrow> Inl DecryptionFailure
      | Some (k, e) \<Rightarrow>
          (case pbits_out w of
             None \<Rightarrow> Inl DecryptionFailure
           | Some p \<Rightarrow> decode_outputs ws pbits_out rest (res(w \<mapsto> e XOR p))))"

text \<open>
  Modelled from the spec: \<^verbatim>\<open>yao.evaluate\<close>, the contract of \<section>4.3.  The evaluator holds
  a (key, external bit) pair for every input wire of the garbler and for every input
  wire of its own.
\<close>

definition evaluate ::
  "circuit \<Rightarrow> garbled_tables \<Rightarrow> pbits \<Rightarrow> (wire \<rightharpoonup> key \<times> bit) \<Rightarrow> (wire \<rightharpoonup> key \<times> bit) \<Rightarrow>
   error + (wire \<rightharpoonup> bit)" where
  "evaluate c tables pbits_out a_inputs b_inputs =
     (case eval_gates tables (gates c) (a_inputs ++ b_inputs) of
        Inl e \<Rightarrow> Inl e
      | Inr ws \<Rightarrow> decode_outputs ws pbits_out (out c) Map.empty)"

subsection \<open>Plaintext evaluation\<close>

text \<open>
  Modelled from the spec: the plaintext evaluation of a circuit (\<section>8), gate by gate
  on the semantic values.
\<close>

fun plain_gates :: "gate list \<Rightarrow> (wire \<rightharpoonup> bit) \<Rightarrow> (wire \<rightharpoonup> bit) option" where
  "plain_gates [] vs = Some vs"
| "plain_gates (g # gs) vs =
     (case those (map vs (gate_in g)) of
        None \<Rightarrow> None
      | Some vals \<Rightarrow>
          (case gate_output (gate_type g) vals of
             None \<Rightarrow> None
           | Some v \<Rightarrow> plain_gates gs (vs(gate_id g \<mapsto> v))))"

text \<open>Modelled from the spec: the semantic values of the output wires.\<close>

fun plain_outputs :: "(wire \<rightharpoonup> bit) \<Rightarrow> wire list \<Rightarrow> (wire \<rightharpoonup> bit) \<Rightarrow> (wire \<rightharpoonup> bit) option" where
  "plain_outputs vs [] res = Some res"
| "plain_outputs vs (w # rest) res =
     (case vs w of None \<Rightarrow> None | Some v \<Rightarrow> plain_outputs vs rest (res(w \<mapsto> v)))"

text \<open>
  Modelled from the spec: the plaintext evaluation of circuit \<open>c\<close> on the garbler's
  bits \<open>A\<close> and the evaluator's bits \<open>B\<close>.
\<close>

definition plain_eval :: "circuit \<Rightarrow> (wire \<rightharpoonup> bit) \<Rightarrow> (wire \<rightharpoonup> bit) \<Rightarrow> (wire \<rightharpoonup> bit) option" where
  "plain_eval c A B =
     (case plain_gates (gates c) (A ++ B) of
        None \<Rightarrow> None
      | Some vs \<Rightarrow> plain_outputs vs (out c) Map.empty)"

subsection \<open>The protocol run\<close>

text \<open>
  Modelled from the spec: the ideal oblivious transfer of \<section>4.2.  For each wire of the
  transfer table the receiver obtains exactly the entry of its own bit.
\<close>

definition ot_receive ::
  "(wire \<rightharpoonup> (key \<times> bit) \<times> (key \<times> bit)) \<Rightarrow> (wire \<rightharpoonup> bit) \<Rightarrow> (wire \<rightharpoonup> key \<times> bit)" where
  "ot_receive b_keys B =
     (\<lambda>w. case b_keys w of
             None \<Rightarrow> None
           | Some pair \<Rightarrow>
               (case B w of
                  None \<Rightarrow> None
                | Some v \<Rightarrow> Some (if v = 0 then fst pair else snd pair)))"

text \<open>
  Modelled from the spec: one protocol run (\<section>5), in its fixed order of phases:
  garbling, the garbler's entry, the garbler's own inputs (the bits \<open>A\<close>, typed in the
  order of Alice's wires), the transfer of the evaluator's keys for the bits \<open>B\<close>,
  evaluation and decoding.
\<close>

definition yao_run ::
  "circuit \<Rightarrow> randomness \<Rightarrow> int list \<Rightarrow> (wire \<rightharpoonup> bit) \<Rightarrow> error + (wire \<rightharpoonup> bit)" where
  "yao_run c rnd A B =
     (case GarbledCircuit c rnd of
        Inl e \<Rightarrow> Inl e
      | Inr gc \<Rightarrow>
          (case YaoGarbler_init c gc of
             Inl e \<Rightarrow> Inl e
           | Inr en \<Rightarrow>
               (case get_alice_inputs (entry_keys en) (entry_pbits en) (alice c) (map IntVal A) of
                  Inl e \<Rightarrow> Inl e
                | Inr (a_inputs, ls) \<Rightarrow>
                    (case b_keys_of (entry_keys en) (entry_pbits en) (bob c) of
                       Inl e \<Rightarrow> Inl e
                     | Inr b_keys \<Rightarrow>
                         evaluate c (entry_garbled_tables en) (entry_pbits_out en)
                           a_inputs (ot_receive b_keys B)))))"

subsection \<open>Notions for the round trip\<close>

text \<open>
  Modelled from the spec: what a wire with semantic value \<open>v\<close> carries (\<section>3,
  ExternalBit), the key for \<open>v\<close> and the external bit \<open>v XOR pbit\<close>.
\<close>

definition wire_label :: "randomness \<Rightarrow> wire \<Rightarrow> bit \<Rightarrow> key \<times> bit" where
  "wire_label rnd w v = (key_for (rnd_keys rnd w) v, v XOR pbit_of rnd w)"

text \<open>
  Modelled from the spec: the precondition and loop invariant of the evaluator (\<section>4.3).
  The evaluator holds a pair exactly for the wires that have a semantic value, and the
  pair is the one the wire carries for that value, which is 0 or 1.
\<close>

definition labels_agree :: "randomness \<Rightarrow> (wire \<rightharpoonup> bit) \<Rightarrow> (wire \<rightharpoonup> key \<times> bit) \<Rightarrow> bool" where
  "labels_agree rnd vs ws \<longleftrightarrow>
     (\<forall>w. case vs w of
            None \<Rightarrow> ws w = None
          | Some v \<Rightarrow> (v = 0 \<or> v = 1) \<and> ws w = Some (wire_label rnd w v))"

text \<open>
  A circuit of depth three over all four gate types:
  \<open>NOT ((a AND b) XOR (a OR b))\<close>.
\<close>

definition mixed_circuit :: circuit where
  "mixed_circuit =
     \<lparr> circuit_id = ''MIXED'', alice = [1], bob = [2], out = [6],
       gates = [\<lparr> gate_id = 3, gate_type = And_gate, gate_in = [1, 2] \<rparr>,
                \<lparr> gate_id = 4, gate_type = Or_gate, gate_in = [1, 2] \<rparr>,
                \<lparr> gate_id = 5, gate_type = Xor_gate, gate_in = [3, 4] \<rparr>,
                \<lparr> gate_id = 6, gate_type = Not_gate, gate_in = [5] \<rparr>] \<rparr>"

text \<open>Sample key material: a fixed permutation bit and key pair for every wire.\<close>

definition sample_randomness :: randomness where
  "sample_randomness =
     \<lparr> rnd_pbit = (\<lambda>w. w mod 2 = 1),
       rnd_keys = (\<lambda>w. (replicate (nat w) CHR ''k'' @ ''0'', replicate (nat w) CHR ''k'' @ ''1'')) \<rparr>"

subsection \<open>The server's output permutation bits\<close>

text \<open>
  The entry of a wire in \<^verbatim>\<open>circuit["wires"]\<close> as \<^verbatim>\<open>server.py\<close> reads it: its \<^verbatim>\<open>"type"\<close>,
  and its \<^verbatim>\<open>"pbit"\<close> when the key is present.
\<close>

record wire_info =
  wire_type :: string
  wire_pbit :: "bit option"

text \<open>
  \<^verbatim>\<open>pbits_out = {w: circuit["wires"][w]["pbit"] for w in circuit["out"]}\<close> in
  \<^verbatim>\<open>YaoRequestHandler.handle\<close>; either subscript raises \<^verbatim>\<open>KeyError\<close> on a missing key.
\<close>

definition server_pbits_out :: "(wire \<rightharpoonup> wire_info) \<Rightarrow> wire list \<Rightarrow> error + pbits" where
  "server_pbits_out wires outs =
     pbits_out_loop (\<lambda>w. case wires w of None \<Rightarrow> None | Some info \<Rightarrow> wire_pbit info)
       outs Map.empty"

subsection \<open>Malformed circuits\<close>

text \<open>
  Modelled from the spec: the wire \<open>v\<close> depends on the wire \<open>u\<close> when \<open>u\<close> is an input of
  the gate that writes \<open>v\<close> (\<section>3, Gate).
\<close>

definition depends :: "circuit \<Rightarrow> (wire \<times> wire) set" where
  "depends c = {(u, v). \<exists>g \<in> set (gates c). v = gate_id g \<and> u \<in> set (gate_in g)}"

text \<open>Modelled from the spec: a circuit with a cycle (\<section>4.1, \<section>7).\<close>

definition cyclic :: "circuit \<Rightarrow> bool" where
  "cyclic c \<longleftrightarrow> (\<exists>w. (w, w) \<in> (depends c)\<^sup>+)"

text \<open>
  Modelled from the spec: a circuit with a dangling wire reference (\<section>4.1, \<section>7, \<section>8),
  a gate with an input wire that the circuit does not declare.
\<close>

definition dangling :: "circuit \<Rightarrow> bool" where
  "dangling c \<longleftrightarrow> (\<exists>g \<in> set (gates c). \<exists>u \<in> set (gate_in g). u \<notin> set (wires_of c))"

text \<open>
  Alice's branch of \<^verbatim>\<open>main\<close> once the circuit is chosen: \<^verbatim>\<open>Alice(circuit, ...)\<close>, whose
  constructor first builds the garbled circuit, then \<^verbatim>\<open>alice.start()\<close>.  The result is
  what went over the socket and the exception that ended the run, if any.
\<close>

definition Alice_run ::
  "circuit \<Rightarrow> randomness \<Rightarrow> bool \<Rightarrow> line list \<Rightarrow> alice_event list \<times> error option" where
  "Alice_run c rnd oblivious_transfer ls =
     (case GarbledCircuit c rnd of
        Inl e \<Rightarrow> ([], Some e)
      | Inr gc \<Rightarrow>
          (case Alice_init c gc oblivious_transfer ls of
             Inl e \<Rightarrow> ([], Some e)
           | Inr (st, ls') \<Rightarrow> Alice_start st))"

text \<open>A circuit whose two gates feed each other.\<close>

definition loop_circuit :: circuit where
  "loop_circuit =
     \<lparr> circuit_id = ''LOOP'', alice = [1], bob = [2], out = [4],
       gates = [\<lparr> gate_id = 3, gate_type = And_gate, gate_in = [1, 4] \<rparr>,
                \<lparr> gate_id = 4, gate_type = Xor_gate, gate_in = [3, 2] \<rparr>] \<rparr>"

text \<open>A circuit whose gate reads the undeclared wire 9.\<close>

definition dangling_circuit :: circuit where
  "dangling_circuit =
     \<lparr> circuit_id = ''DANGLING'', alice = [1], bob = [2], out = [3],
       gates = [\<lparr> gate_id = 3, gate_type = And_gate, gate_in = [1, 9] \<rparr>] \<rparr>"

section \<open>Properties\<close>



subsection \<open>The input loops\<close>

lemma read_bit_Inr:
  "read_bit ls = Inr (v, ls') \<Longrightarrow> (v = 0 \<or> v = 1) \<and> length (valid_lines ls) = Suc (length (valid_lines ls'))"
  by (induction ls rule: read_bit.induct) (auto simp: valid_lines_def split: if_splits)

lemma read_bit_returns:
  "valid_lines ls \<noteq> [] \<Longrightarrow> \<exists>v ls'. read_bit ls = Inr (v, ls')"
  by (induction ls rule: read_bit.induct) (auto simp: valid_lines_def split: if_splits)

lemma bob_inputs_loop_dom:
  "bob_inputs_loop ws ls acc = Inr (m, r) \<Longrightarrow> dom m = dom acc \<union> set ws"
proof (induction ws arbitrary: ls acc)
  case Nil
  then show ?case by simp
next
  case (Cons w ws)
  from Cons.prems obtain v ls' where
    rec: "bob_inputs_loop ws ls' (acc(w \<mapsto> v)) = Inr (m, r)"
    by (auto split: sum.splits)
  from Cons.IH [OF rec] have "dom m = dom (acc(w \<mapsto> v)) \<union> set ws" .
  also have "dom (acc(w \<mapsto> v)) = insert w (dom acc)" by simp
  finally show ?case by simp
qed

lemma bob_inputs_loop_bits:
  "bob_inputs_loop ws ls acc = Inr (m, r) \<Longrightarrow>
   (\<forall>w \<in> dom acc. acc w = Some 0 \<or> acc w = Some 1) \<Longrightarrow>
   (\<forall>w \<in> dom m. m w = Some 0 \<or> m w = Some 1)"
proof (induction ws arbitrary: ls acc)
  case Nil
  then show ?case by simp
next
  case (Cons w ws)
  from Cons.prems(1) obtain v ls' where rb: "read_bit ls = Inr (v, ls')"
    and rec: "bob_inputs_loop ws ls' (acc(w \<mapsto> v)) = Inr (m, r)"
    by (auto split: sum.splits)
  from read_bit_Inr [OF rb] have "v = 0 \<or> v = 1" by simp
  with Cons.prems(2) have "\<forall>x \<in> dom (acc(w \<mapsto> v)). (acc(w \<mapsto> v)) x = Some 0 \<or> (acc(w \<mapsto> v)) x = Some 1"
    by auto
  from Cons.IH [OF rec this] show ?case .
qed

lemma bob_inputs_loop_returns:
  "length ws \<le> length (valid_lines ls) \<Longrightarrow> \<exists>m r. bob_inputs_loop ws ls acc = Inr (m, r)"
proof (induction ws arbitrary: ls acc)
  case Nil
  then show ?case by simp
next
  case (Cons w ws)
  then have "valid_lines ls \<noteq> []" by auto
  from read_bit_returns [OF this] obtain v ls' where rb: "read_bit ls = Inr (v, ls')" by blast
  from read_bit_Inr [OF rb] Cons.prems have "length ws \<le> length (valid_lines ls')" by simp
  from Cons.IH [OF this] rb show ?case by simp
qed

lemma alice_inputs_loop_dom:
  "alice_inputs_loop keys pb ws ls acc = Inr (m, r) \<Longrightarrow> dom m = dom acc \<union> set ws"
proof (induction ws arbitrary: ls acc)
  case Nil
  then show ?case by simp
next
  case (Cons w ws)
  from Cons.prems obtain x ls' where
    rec: "alice_inputs_loop keys pb ws ls' (acc(w \<mapsto> x)) = Inr (m, r)"
    by (auto split: sum.splits option.splits)
  from Cons.IH [OF rec] have "dom m = dom (acc(w \<mapsto> x)) \<union> set ws" .
  also have "dom (acc(w \<mapsto> x)) = insert w (dom acc)" by simp
  finally show ?case by simp
qed

lemma alice_inputs_loop_bound:
  "alice_inputs_loop keys pb ws ls acc = Inr (m, r) \<Longrightarrow>
   (\<forall>w \<in> dom acc. alice_bound keys pb acc w) \<Longrightarrow>
   (\<forall>w \<in> dom m. alice_bound keys pb m w)"
proof (induction ws arbitrary: ls acc)
  case Nil
  then show ?case by simp
next
  case (Cons w ws)
  from Cons.prems(1) obtain v ls' ks p where rb: "read_bit ls = Inr (v, ls')"
    and k: "keys w = Some ks" and pw: "pb w = Some p"
    and rec: "alice_inputs_loop keys pb ws ls' (acc(w \<mapsto> (key_for ks v, p XOR v))) = Inr (m, r)"
    by (auto split: sum.splits option.splits)
  from read_bit_Inr [OF rb] have v: "v = 0 \<or> v = 1" by simp
  have "\<forall>x \<in> dom (acc(w \<mapsto> (key_for ks v, p XOR v))). alice_bound keys pb (acc(w \<mapsto> (key_for ks v, p XOR v))) x"
  proof
    fix x assume x: "x \<in> dom (acc(w \<mapsto> (key_for ks v, p XOR v)))"
    show "alice_bound keys pb (acc(w \<mapsto> (key_for ks v, p XOR v))) x"
    proof (cases "x = w")
      case True
      with v k pw show ?thesis unfolding alice_bound_def by auto
    next
      case False
      with x have "x \<in> dom acc" by auto
      with Cons.prems(2) have "alice_bound keys pb acc x" by blast
      with False show ?thesis unfolding alice_bound_def by auto
    qed
  qed
  from Cons.IH [OF rec this] show ?case .
qed

lemma alice_inputs_loop_returns:
  "length ws \<le> length (valid_lines ls) \<Longrightarrow> set ws \<subseteq> dom keys \<inter> dom pb \<Longrightarrow>
   \<exists>m r. alice_inputs_loop keys pb ws ls acc = Inr (m, r)"
proof (induction ws arbitrary: ls acc)
  case Nil
  then show ?case by simp
next
  case (Cons w ws)
  then have "valid_lines ls \<noteq> []" by auto
  from read_bit_returns [OF this] obtain v ls' where rb: "read_bit ls = Inr (v, ls')" by blast
  from read_bit_Inr [OF rb] Cons.prems have len: "length ws \<le> length (valid_lines ls')" by simp
  from Cons.prems(2) obtain ks p where k: "keys w = Some ks" and pw: "pb w = Some p" by auto
  from Cons.prems(2) have sub: "set ws \<subseteq> dom keys \<inter> dom pb" by simp
  from Cons.IH [OF len sub] rb k pw show ?case by simp
qed

lemma read_bit_entered:
  "read_bit ls = Inr (v, ls') \<Longrightarrow> entered_bits ls = v # entered_bits ls'"
  by (induction ls rule: read_bit.induct) (auto split: if_splits)

lemma length_entered_bits: "length (entered_bits ls) = length (valid_lines ls)"
  by (induction ls rule: entered_bits.induct) (auto simp: valid_lines_def)

lemma entered_bits_bits: "set (entered_bits ls) \<subseteq> {0, 1}"
  by (induction ls rule: entered_bits.induct) auto

lemma alice_inputs_loop_entered:
  "alice_inputs_loop keys pb ws ls acc = Inr (m, r) \<Longrightarrow>
   length ws \<le> length (entered_bits ls)
   \<and> entered_bits r = drop (length ws) (entered_bits ls)
   \<and> (\<forall>x. x \<notin> set ws \<longrightarrow> m x = acc x)
   \<and> (\<forall>i < length ws. ws ! i \<notin> set (drop (Suc i) ws) \<longrightarrow>
         (\<exists>ks p. keys (ws ! i) = Some ks \<and> pb (ws ! i) = Some p
            \<and> m (ws ! i) = Some (key_for ks (entered_bits ls ! i), p XOR entered_bits ls ! i)))"
proof (induction ws arbitrary: ls acc)
  case Nil
  then show ?case by simp
next
  case (Cons w ws)
  from Cons.prems obtain v ls' ks p where rb: "read_bit ls = Inr (v, ls')"
    and k: "keys w = Some ks" and pw: "pb w = Some p"
    and rec: "alice_inputs_loop keys pb ws ls' (acc(w \<mapsto> (key_for ks v, p XOR v))) = Inr (m, r)"
    by (auto split: sum.splits option.splits)
  note eb = read_bit_entered [OF rb]
  from Cons.IH [OF rec] have len: "length ws \<le> length (entered_bits ls')"
    and rest: "entered_bits r = drop (length ws) (entered_bits ls')"
    and other: "\<forall>x. x \<notin> set ws \<longrightarrow> m x = (acc(w \<mapsto> (key_for ks v, p XOR v))) x"
    and ih: "\<forall>i < length ws. ws ! i \<notin> set (drop (Suc i) ws) \<longrightarrow>
         (\<exists>ks p. keys (ws ! i) = Some ks \<and> pb (ws ! i) = Some p
            \<and> m (ws ! i) = Some (key_for ks (entered_bits ls' ! i), p XOR entered_bits ls' ! i))"
    by blast+
  have a: "length (w # ws) \<le> length (entered_bits ls)" using len eb by simp
  have b: "entered_bits r = drop (length (w # ws)) (entered_bits ls)" using rest eb by simp
  have c: "\<forall>x. x \<notin> set (w # ws) \<longrightarrow> m x = acc x" using other by simp
  have d: "\<forall>i < length (w # ws). (w # ws) ! i \<notin> set (drop (Suc i) (w # ws)) \<longrightarrow>
         (\<exists>ks p. keys ((w # ws) ! i) = Some ks \<and> pb ((w # ws) ! i) = Some p
            \<and> m ((w # ws) ! i) = Some (key_for ks (entered_bits ls ! i), p XOR entered_bits ls ! i))"
  proof (intro allI impI)
    fix i assume i: "i < length (w # ws)" and last: "(w # ws) ! i \<notin> set (drop (Suc i) (w # ws))"
    show "\<exists>ks p. keys ((w # ws) ! i) = Some ks \<and> pb ((w # ws) ! i) = Some p
            \<and> m ((w # ws) ! i) = Some (key_for ks (entered_bits ls ! i), p XOR entered_bits ls ! i)"
    proof (cases i)
      case 0
      with last have "w \<notin> set ws" by simp
      with other have "m w = Some (key_for ks v, p XOR v)" by simp
      with 0 k pw eb show ?thesis by simp
    next
      case (Suc j)
      with i last have j: "j < length ws" and lj: "ws ! j \<notin> set (drop (Suc j) ws)" by simp_all
      from ih j lj obtain ks' p' where "keys (ws ! j) = Some ks'" "pb (ws ! j) = Some p'"
        "m (ws ! j) = Some (key_for ks' (entered_bits ls' ! j), p' XOR entered_bits ls' ! j)"
        by blast
      with Suc eb show ?thesis by simp
    qed
  qed
  from a b c d show ?case by blast
qed

lemma bob_inputs_loop_entered:
  "bob_inputs_loop ws ls acc = Inr (m, r) \<Longrightarrow>
   length ws \<le> length (entered_bits ls)
   \<and> entered_bits r = drop (length ws) (entered_bits ls)
   \<and> (\<forall>x. x \<notin> set ws \<longrightarrow> m x = acc x)
   \<and> (\<forall>i < length ws. ws ! i \<notin> set (drop (Suc i) ws) \<longrightarrow>
         m (ws ! i) = Some (entered_bits ls ! i))"
proof (induction ws arbitrary: ls acc)
  case Nil
  then show ?case by simp
next
  case (Cons w ws)
  from Cons.prems obtain v ls' where rb: "read_bit ls = Inr (v, ls')"
    and rec: "bob_inputs_loop ws ls' (acc(w \<mapsto> v)) = Inr (m, r)"
    by (auto split: sum.splits)
  note eb = read_bit_entered [OF rb]
  from Cons.IH [OF rec] have len: "length ws \<le> length (entered_bits ls')"
    and rest: "entered_bits r = drop (length ws) (entered_bits ls')"
    and other: "\<forall>x. x \<notin> set ws \<longrightarrow> m x = (acc(w \<mapsto> v)) x"
    and ih: "\<forall>i < length ws. ws ! i \<notin> set (drop (Suc i) ws) \<longrightarrow>
         m (ws ! i) = Some (entered_bits ls' ! i)"
    by blast+
  have a: "length (w # ws) \<le> length (entered_bits ls)" using len eb by simp
  have b: "entered_bits r = drop (length (w # ws)) (entered_bits ls)" using rest eb by simp
  have c: "\<forall>x. x \<notin> set (w # ws) \<longrightarrow> m x = acc x" using other by simp
  have d: "\<forall>i < length (w # ws). (w # ws) ! i \<notin> set (drop (Suc i) (w # ws)) \<longrightarrow>
         m ((w # ws) ! i) = Some (entered_bits ls ! i)"
  proof (intro allI impI)
    fix i assume i: "i < length (w # ws)" and last: "(w # ws) ! i \<notin> set (drop (Suc i) (w # ws))"
    show "m ((w # ws) ! i) = Some (entered_bits ls ! i)"
    proof (cases i)
      case 0
      with last have "w \<notin> set ws" by simp
      with other have "m w = Some v" by simp
      with 0 eb show ?thesis by simp
    next
      case (Suc j)
      with i last have j: "j < length ws" and lj: "ws ! j \<notin> set (drop (Suc j) ws)" by simp_all
      from ih j lj have "m (ws ! j) = Some (entered_bits ls' ! j)" by blast
      with Suc eb show ?thesis by simp
    qed
  qed
  from a b c d show ?case by blast
qed

lemma get_alice_inputs_single:
  assumes "v = 0 \<or> v = 1" and "keys w = Some ks" and "pb w = Some p"
  shows "get_alice_inputs keys pb [w] (IntVal v # ls) = Inr ([w \<mapsto> (key_for ks v, p XOR v)], ls)"
  using assms by (auto simp: get_alice_inputs_def)

lemma get_alice_inputs_entered:
  assumes "get_alice_inputs keys pb a_wires ls = Inr (a, r)"
  shows "\<forall>i < length a_wires. a_wires ! i \<notin> set (drop (Suc i) a_wires) \<longrightarrow>
           (\<exists>ks p. keys (a_wires ! i) = Some ks \<and> pb (a_wires ! i) = Some p
              \<and> a (a_wires ! i) = Some (key_for ks (entered_bits ls ! i), p XOR entered_bits ls ! i))"
proof -
  from assms have l: "alice_inputs_loop keys pb a_wires ls Map.empty = Inr (a, r)"
    by (simp add: get_alice_inputs_def)
  from alice_inputs_loop_entered [OF l] show ?thesis by blast
qed

lemma get_bob_inputs_entered:
  assumes "get_bob_inputs b_wires ls = Inr (b, r)"
  shows "\<forall>i < length b_wires. b_wires ! i \<notin> set (drop (Suc i) b_wires) \<longrightarrow>
           b (b_wires ! i) = Some (entered_bits ls ! i)"
proof -
  from assms have l: "bob_inputs_loop b_wires ls Map.empty = Inr (b, r)"
    by (simp add: get_bob_inputs_def)
  from bob_inputs_loop_entered [OF l] show ?thesis by blast
qed

text \<open>
  Claim C9, as amended.  The input functions return maps whose domain is exactly the
  party's own wires.  \<^verbatim>\<open>get_bob_inputs\<close> binds every wire of Bob to 0 or 1, namely to
  the bit entered at that wire's prompt.  \<^verbatim>\<open>get_alice_inputs\<close> binds every wire of
  Alice not to a bit but to a pair: the key of the bit entered at that wire's prompt,
  which is 0 or 1, and the external bit \<open>pbit XOR\<close> that bit (itself 0 or 1 when the
  wire's permutation bit is).  For a wire listed more than once the last prompt counts.
  A line that is not an integer, or an integer other than 0 and 1, is skipped and the
  next line is read; and both functions return once the terminal holds one accepted
  line per wire (and, for Alice, every wire has its keys and permutation bit).
\<close>

theorem input_maps_total_bits:
  "(get_bob_inputs b_wires ls = Inr (b, r) \<longrightarrow>
      dom b = set b_wires \<and> (\<forall>w \<in> set b_wires. b w = Some 0 \<or> b w = Some 1)
      \<and> (\<forall>i < length b_wires. b_wires ! i \<notin> set (drop (Suc i) b_wires) \<longrightarrow>
            b (b_wires ! i) = Some (entered_bits ls ! i)))
   \<and> (get_alice_inputs keys pb a_wires ls = Inr (a, r') \<longrightarrow>
      dom a = set a_wires \<and>
      (\<forall>w \<in> set a_wires. \<exists>v ks p. (v = 0 \<or> v = 1) \<and> keys w = Some ks \<and> pb w = Some p
          \<and> a w = Some (key_for ks v, p XOR v)
          \<and> (p = 0 \<or> p = 1 \<longrightarrow> p XOR v = 0 \<or> p XOR v = 1))
      \<and> (\<forall>i < length a_wires. a_wires ! i \<notin> set (drop (Suc i) a_wires) \<longrightarrow>
           (\<exists>ks p. keys (a_wires ! i) = Some ks \<and> pb (a_wires ! i) = Some p
              \<and> a (a_wires ! i)
                  = Some (key_for ks (entered_bits ls ! i), p XOR entered_bits ls ! i))))
   \<and> set (entered_bits ls) \<subseteq> {0, 1}
   \<and> read_bit (NotInt # ls) = read_bit ls
   \<and> (x \<noteq> 0 \<and> x \<noteq> 1 \<longrightarrow> read_bit (IntVal x # ls) = read_bit ls)
   \<and> (length b_wires \<le> length (valid_lines ls) \<longrightarrow>
        (\<exists>m t. get_bob_inputs b_wires ls = Inr (m, t)))
   \<and> (length a_wires \<le> length (valid_lines ls) \<and> set a_wires \<subseteq> dom keys \<inter> dom pb \<longrightarrow>
        (\<exists>m t. get_alice_inputs keys pb a_wires ls = Inr (m, t)))"
proof -
  have bobp: "get_bob_inputs b_wires ls = Inr (b, r) \<longrightarrow>
      dom b = set b_wires \<and> (\<forall>w \<in> set b_wires. b w = Some 0 \<or> b w = Some 1)
      \<and> (\<forall>i < length b_wires. b_wires ! i \<notin> set (drop (Suc i) b_wires) \<longrightarrow>
            b (b_wires ! i) = Some (entered_bits ls ! i))"
  proof
    assume h: "get_bob_inputs b_wires ls = Inr (b, r)"
    then have l: "bob_inputs_loop b_wires ls Map.empty = Inr (b, r)" by (simp add: get_bob_inputs_def)
    from bob_inputs_loop_dom [OF l] have d: "dom b = set b_wires" by simp
    from bob_inputs_loop_bits [OF l] have "\<forall>w \<in> dom b. b w = Some 0 \<or> b w = Some 1" by simp
    with d get_bob_inputs_entered [OF h]
    show "dom b = set b_wires \<and> (\<forall>w \<in> set b_wires. b w = Some 0 \<or> b w = Some 1)
      \<and> (\<forall>i < length b_wires. b_wires ! i \<notin> set (drop (Suc i) b_wires) \<longrightarrow>
            b (b_wires ! i) = Some (entered_bits ls ! i))" by simp
  qed
  have alicep: "get_alice_inputs keys pb a_wires ls = Inr (a, r') \<longrightarrow>
      dom a = set a_wires \<and>
      (\<forall>w \<in> set a_wires. \<exists>v ks p. (v = 0 \<or> v = 1) \<and> keys w = Some ks \<and> pb w = Some p
          \<and> a w = Some (key_for ks v, p XOR v)
          \<and> (p = 0 \<or> p = 1 \<longrightarrow> p XOR v = 0 \<or> p XOR v = 1))
      \<and> (\<forall>i < length a_wires. a_wires ! i \<notin> set (drop (Suc i) a_wires) \<longrightarrow>
           (\<exists>ks p. keys (a_wires ! i) = Some ks \<and> pb (a_wires ! i) = Some p
              \<and> a (a_wires ! i)
                  = Some (key_for ks (entered_bits ls ! i), p XOR entered_bits ls ! i)))"
  proof
    assume h: "get_alice_inputs keys pb a_wires ls = Inr (a, r')"
    then have l: "alice_inputs_loop keys pb a_wires ls Map.empty = Inr (a, r')"
      by (simp add: get_alice_inputs_def)
    from alice_inputs_loop_dom [OF l] have d: "dom a = set a_wires" by simp
    from alice_inputs_loop_bound [OF l] have "\<forall>w \<in> dom a. alice_bound keys pb a w" by simp
    with d have o: "\<forall>w \<in> set a_wires. \<exists>v ks p. (v = 0 \<or> v = 1) \<and> keys w = Some ks \<and> pb w = Some p
          \<and> a w = Some (key_for ks v, p XOR v)
          \<and> (p = 0 \<or> p = 1 \<longrightarrow> p XOR v = 0 \<or> p XOR v = 1)"
      unfolding alice_bound_def by fastforce
    from d o get_alice_inputs_entered [OF h]
    show "dom a = set a_wires \<and>
      (\<forall>w \<in> set a_wires. \<exists>v ks p. (v = 0 \<or> v = 1) \<and> keys w = Some ks \<and> pb w = Some p
          \<and> a w = Some (key_for ks v, p XOR v)
          \<and> (p = 0 \<or> p = 1 \<longrightarrow> p XOR v = 0 \<or> p XOR v = 1))
      \<and> (\<forall>i < length a_wires. a_wires ! i \<notin> set (drop (Suc i) a_wires) \<longrightarrow>
           (\<exists>ks p. keys (a_wires ! i) = Some ks \<and> pb (a_wires ! i) = Some p
              \<and> a (a_wires ! i)
                  = Some (key_for ks (entered_bits ls ! i), p XOR entered_bits ls ! i)))"
      by blast
  qed
  have r1: "read_bit (NotInt # ls) = read_bit ls" by simp
  have r2: "x \<noteq> 0 \<and> x \<noteq> 1 \<longrightarrow> read_bit (IntVal x # ls) = read_bit ls" by simp
  have t1: "length b_wires \<le> length (valid_lines ls) \<longrightarrow>
        (\<exists>m t. get_bob_inputs b_wires ls = Inr (m, t))"
    using bob_inputs_loop_returns by (simp add: get_bob_inputs_def)
  have t2: "length a_wires \<le> length (valid_lines ls) \<and> set a_wires \<subseteq> dom keys \<inter> dom pb \<longrightarrow>
        (\<exists>m t. get_alice_inputs keys pb a_wires ls = Inr (m, t))"
    using alice_inputs_loop_returns by (simp add: get_alice_inputs_def)
  from bobp alicep entered_bits_bits [of ls] r1 r2 t1 t2 show ?thesis by blast
qed

theorem input_maps_total_bits_witness:
  "get_bob_inputs [1, 2] [NotInt, IntVal 5, IntVal 1, IntVal 0] = Inr ([1 \<mapsto> 1, 2 \<mapsto> 0], [])
   \<and> dom [1 \<mapsto> 1, 2 \<mapsto> (0::int)] = set [1, 2 :: int]
   \<and> (1::nat) < length [1, 2 :: int] \<and> [1, 2 :: int] ! 1 \<notin> set (drop (Suc 1) [1, 2 :: int])
   \<and> entered_bits [NotInt, IntVal 5, IntVal 1, IntVal 0] = [1, 0]
   \<and> [1 \<mapsto> 1, 2 \<mapsto> (0::int)] ([1, 2 :: int] ! 1) = Some ([1, 0] ! 1)
   \<and> get_alice_inputs [1 \<mapsto> (''a0'', ''a1''), 2 \<mapsto> (''b0'', ''b1'')] [1 \<mapsto> 1, 2 \<mapsto> 0]
         [1, 2] [NotInt, IntVal 5, IntVal 1, IntVal 0]
       = Inr ([1 \<mapsto> (''a1'', 0), 2 \<mapsto> (''b0'', 0)], [])
   \<and> dom [1 \<mapsto> (''a1'', 0::int), 2 \<mapsto> (''b0'', 0)] = set [1, 2 :: int]
   \<and> (5::int) \<noteq> 0 \<and> (5::int) \<noteq> 1
   \<and> read_bit (IntVal 5 # [NotInt, IntVal 5, IntVal 1, IntVal 0])
       = read_bit [NotInt, IntVal 5, IntVal 1, IntVal 0]
   \<and> length [1, 2 :: int] \<le> length (valid_lines [NotInt, IntVal 5, IntVal 1, IntVal 0])
   \<and> set [1, 2 :: int] \<subseteq> dom [1 \<mapsto> (''a0'', ''a1''), 2 \<mapsto> (''b0'', ''b1'')]
                              \<inter> dom [1 \<mapsto> 1, 2 \<mapsto> (0::int)]"
proof -
  have b: "get_bob_inputs [1, 2] [NotInt, IntVal 5, IntVal 1, IntVal 0]
             = Inr ([1 \<mapsto> 1, 2 \<mapsto> 0], [])"
    by (simp add: get_bob_inputs_def)
  have a: "get_alice_inputs [1 \<mapsto> (''a0'', ''a1''), 2 \<mapsto> (''b0'', ''b1'')] [1 \<mapsto> 1, 2 \<mapsto> 0]
         [1, 2] [NotInt, IntVal 5, IntVal 1, IntVal 0]
       = Inr ([1 \<mapsto> (''a1'', 0), 2 \<mapsto> (''b0'', 0)], [])"
    by (simp add: get_alice_inputs_def key_for_def)
  have l: "length [1, 2 :: int] \<le> length (valid_lines [NotInt, IntVal 5, IntVal 1, IntVal 0])"
    by (simp add: valid_lines_def)
  have s: "set [1, 2 :: int] \<subseteq> dom [1 \<mapsto> (''a0'', ''a1''), 2 \<mapsto> (''b0'', ''b1'')]
                              \<inter> dom [1 \<mapsto> 1, 2 \<mapsto> (0::int)]"
    by simp
  have i: "(1::nat) < length [1, 2 :: int]" "[1, 2 :: int] ! 1 \<notin> set (drop (Suc 1) [1, 2 :: int])"
    by simp_all
  have eb: "entered_bits [NotInt, IntVal 5, IntVal 1, IntVal 0] = [1, 0]" by simp
  note T = input_maps_total_bits [of "[1, 2]" "[NotInt, IntVal 5, IntVal 1, IntVal 0]"
      "[1 \<mapsto> 1, 2 \<mapsto> 0]" "[]"
      "[1 \<mapsto> (''a0'', ''a1''), 2 \<mapsto> (''b0'', ''b1'')]" "[1 \<mapsto> 1, 2 \<mapsto> 0]" "[1, 2]"
      "[1 \<mapsto> (''a1'', 0), 2 \<mapsto> (''b0'', 0)]" "[]" 5]
  from T b i have "[1 \<mapsto> 1, 2 \<mapsto> (0::int)] ([1, 2 :: int] ! 1)
      = Some (entered_bits [NotInt, IntVal 5, IntVal 1, IntVal 0] ! 1)" by blast
  then have e: "[1 \<mapsto> 1, 2 \<mapsto> (0::int)] ([1, 2 :: int] ! 1) = Some ([1, 0] ! 1)"
    by (simp only: eb)
  from T b a l s have rest: "dom [1 \<mapsto> 1, 2 \<mapsto> (0::int)] = set [1, 2 :: int]"
    "dom [1 \<mapsto> (''a1'', 0::int), 2 \<mapsto> (''b0'', 0)] = set [1, 2 :: int]"
    "read_bit (IntVal 5 # [NotInt, IntVal 5, IntVal 1, IntVal 0])
       = read_bit [NotInt, IntVal 5, IntVal 1, IntVal 0]"
    by simp_all
  have n: "(5::int) \<noteq> 0" "(5::int) \<noteq> 1" by simp_all
  from b rest(1) i eb e a rest(2) n rest(3) l s show ?thesis by blast
qed

text \<open>
  What \<^verbatim>\<open>get_alice_inputs\<close> binds a wire to is not the entered bit.  With the entered
  value 1 and the permutation bit 1, wire 1 is bound to the pair of the key
  \<^verbatim>\<open>a1\<close> and the external bit 0; with a permutation bit that is not a bit, the bit
  in the pair is not one either.
\<close>

theorem input_maps_total_bits_counterexample:
  "get_alice_inputs [1 \<mapsto> (''a0'', ''a1'')] [1 \<mapsto> 1] [1] [IntVal 1]
     = Inr ([1 \<mapsto> (''a1'', 0)], [])
   \<and> entered_bits [IntVal 1] = [1]
   \<and> [1 \<mapsto> (''a1'', 0::int)] (1::int) = Some (''a1'', 0)
   \<and> snd (''a1'', 0::int) \<noteq> 1
   \<and> get_alice_inputs [1 \<mapsto> (''a0'', ''a1'')] [1 \<mapsto> 2] [1] [IntVal 1]
     = Inr ([1 \<mapsto> (''a1'', 3)], [])
   \<and> snd (''a1'', 3::int) \<notin> {0, 1}"
  by (simp add: get_alice_inputs_def key_for_def)

subsection \<open>External bits\<close>

text \<open>
  Claim C5.  The external bit sent with a wire is the semantic value XOR the wire's
  permutation bit: the encrypted-bit pair of a wire is
  \<open>((key0, 0 XOR pbit), (key1, 1 XOR pbit))\<close>, its two entries being the entries for the
  values 0 and 1, and \<^verbatim>\<open>get_alice_inputs\<close> binds a wire of Alice to
  \<open>(key for v, pbit XOR v)\<close> where \<open>v\<close> is the bit that Alice entered at that wire's
  prompt (the \<open>i\<close>-th accepted line for the \<open>i\<close>-th wire; for a single wire and a first
  line that is 0 or 1, that line).
\<close>

theorem external_bit_is_value_xor_pbit:
  "get_encr_bits pbit key0 key1 = ((key0, 0 XOR pbit), (key1, 1 XOR pbit))
   \<and> fst (get_encr_bits pbit key0 key1) = (key_for (key0, key1) 0, 0 XOR pbit)
   \<and> snd (get_encr_bits pbit key0 key1) = (key_for (key0, key1) 1, 1 XOR pbit)
   \<and> (get_alice_inputs keys pb a_wires ls = Inr (a, r) \<longrightarrow>
        (\<forall>w \<in> set a_wires. \<exists>v ks p. (v = 0 \<or> v = 1) \<and> keys w = Some ks \<and> pb w = Some p
            \<and> a w = Some (key_for ks v, p XOR v)))
   \<and> (get_alice_inputs keys pb a_wires ls = Inr (a, r) \<longrightarrow>
        (\<forall>i < length a_wires. a_wires ! i \<notin> set (drop (Suc i) a_wires) \<longrightarrow>
           (\<exists>ks p. keys (a_wires ! i) = Some ks \<and> pb (a_wires ! i) = Some p
              \<and> a (a_wires ! i)
                  = Some (key_for ks (entered_bits ls ! i), p XOR entered_bits ls ! i))))
   \<and> ((typed = 0 \<or> typed = 1) \<and> keys wire = Some kp \<and> pb wire = Some pw \<longrightarrow>
        get_alice_inputs keys pb [wire] (IntVal typed # ls)
          = Inr ([wire \<mapsto> (key_for kp typed, pw XOR typed)], ls))"
proof -
  have old: "get_alice_inputs keys pb a_wires ls = Inr (a, r) \<longrightarrow>
        (\<forall>w \<in> set a_wires. \<exists>v ks p. (v = 0 \<or> v = 1) \<and> keys w = Some ks \<and> pb w = Some p
            \<and> a w = Some (key_for ks v, p XOR v))"
  proof
    assume "get_alice_inputs keys pb a_wires ls = Inr (a, r)"
    then have l: "alice_inputs_loop keys pb a_wires ls Map.empty = Inr (a, r)"
      by (simp add: get_alice_inputs_def)
    from alice_inputs_loop_dom [OF l] have d: "dom a = set a_wires" by simp
    from alice_inputs_loop_bound [OF l] have "\<forall>w \<in> dom a. alice_bound keys pb a w" by simp
    with d show "\<forall>w \<in> set a_wires. \<exists>v ks p. (v = 0 \<or> v = 1) \<and> keys w = Some ks \<and> pb w = Some p
            \<and> a w = Some (key_for ks v, p XOR v)"
      unfolding alice_bound_def by simp
  qed
  have new: "get_alice_inputs keys pb a_wires ls = Inr (a, r) \<longrightarrow>
        (\<forall>i < length a_wires. a_wires ! i \<notin> set (drop (Suc i) a_wires) \<longrightarrow>
           (\<exists>ks p. keys (a_wires ! i) = Some ks \<and> pb (a_wires ! i) = Some p
              \<and> a (a_wires ! i)
                  = Some (key_for ks (entered_bits ls ! i), p XOR entered_bits ls ! i)))"
    using get_alice_inputs_entered by blast
  have single: "(typed = 0 \<or> typed = 1) \<and> keys wire = Some kp \<and> pb wire = Some pw \<longrightarrow>
        get_alice_inputs keys pb [wire] (IntVal typed # ls)
          = Inr ([wire \<mapsto> (key_for kp typed, pw XOR typed)], ls)"
    using get_alice_inputs_single by blast
  have e: "get_encr_bits pbit key0 key1 = ((key0, 0 XOR pbit), (key1, 1 XOR pbit))
   \<and> fst (get_encr_bits pbit key0 key1) = (key_for (key0, key1) 0, 0 XOR pbit)
   \<and> snd (get_encr_bits pbit key0 key1) = (key_for (key0, key1) 1, 1 XOR pbit)"
    by (simp add: get_encr_bits_def key_for_def)
  from e old new single show ?thesis by blast
qed

theorem external_bit_is_value_xor_pbit_witness:
  "get_alice_inputs [7 \<mapsto> (''k0'', ''k1'')] [7 \<mapsto> 1] [7] [NotInt, IntVal 0]
     = Inr ([7 \<mapsto> (''k0'', 1)], [])
   \<and> (0::nat) < length [7::int] \<and> [7::int] ! 0 \<notin> set (drop (Suc 0) [7::int])
   \<and> entered_bits [NotInt, IntVal 0] ! 0 = 0
   \<and> [7 \<mapsto> (''k0'', ''k1'')] (7::int) = Some (''k0'', ''k1'') \<and> [7 \<mapsto> (1::int)] (7::int) = Some 1
   \<and> [7 \<mapsto> (''k0'', 1::int)] (7::int) = Some (key_for (''k0'', ''k1'') 0, 1 XOR 0)
   \<and> get_alice_inputs [7 \<mapsto> (''k0'', ''k1'')] [7 \<mapsto> 1] [7] (IntVal 1 # [NotInt, IntVal 0])
       = Inr ([7 \<mapsto> (key_for (''k0'', ''k1'') 1, 1 XOR 1)], [NotInt, IntVal 0])"
proof -
  have a: "get_alice_inputs [7 \<mapsto> (''k0'', ''k1'')] [7 \<mapsto> 1] [7] [NotInt, IntVal 0]
             = Inr ([7 \<mapsto> (''k0'', 1)], [])"
    by (simp add: get_alice_inputs_def key_for_def)
  have i: "(0::nat) < length [7::int]" "[7::int] ! 0 \<notin> set (drop (Suc 0) [7::int])" by simp_all
  have k: "[7 \<mapsto> (''k0'', ''k1'')] (7::int) = Some (''k0'', ''k1'')"
    "[7 \<mapsto> (1::int)] (7::int) = Some 1" "(1::int) = 0 \<or> (1::int) = 1" by simp_all
  have eb: "entered_bits [NotInt, IntVal 0] ! 0 = 0" by simp
  note T = external_bit_is_value_xor_pbit [of 0 "''k0''" "''k1''" "[7 \<mapsto> (''k0'', ''k1'')]"
      "[7 \<mapsto> 1]" "[7]" "[NotInt, IntVal 0]" "[7 \<mapsto> (''k0'', 1)]" "[]" 1 7 "(''k0'', ''k1'')" 1]
  from T a i have "\<exists>ks p. [7 \<mapsto> (''k0'', ''k1'')] ([7::int] ! 0) = Some ks \<and> [7 \<mapsto> (1::int)] ([7::int] ! 0) = Some p
              \<and> [7 \<mapsto> (''k0'', 1::int)] ([7::int] ! 0)
                  = Some (key_for ks (entered_bits [NotInt, IntVal 0] ! 0), p XOR entered_bits [NotInt, IntVal 0] ! 0)"
    by blast
  then have b: "[7 \<mapsto> (''k0'', 1::int)] (7::int) = Some (key_for (''k0'', ''k1'') 0, 1 XOR 0)"
    by (simp add: eb)
  from T k have c: "get_alice_inputs [7 \<mapsto> (''k0'', ''k1'')] [7 \<mapsto> 1] [7] (IntVal 1 # [NotInt, IntVal 0])
       = Inr ([7 \<mapsto> (key_for (''k0'', ''k1'') 1, 1 XOR 1)], [NotInt, IntVal 0])"
    by blast
  from a i eb k(1,2) b c show ?thesis by blast
qed

subsection \<open>The command-line flag\<close>

text \<open>
  Claim C2 says that \<^verbatim>\<open>--no-oblivious-transfer\<close> disables the oblivious transfer.  The
  script parses the flag and then calls \<^verbatim>\<open>main\<close> with the constant \<^verbatim>\<open>True\<close>: with the
  flag set, Bob and Alice are still constructed with the transfer enabled, and the
  flag never changes what the script does.
\<close>

theorem flag_ignored:
  "script_main \<lparr>party = ''bob'', no_oblivious_transfer = True\<rparr> chosen = Construct_Bob True
   \<and> script_main \<lparr>party = ''alice'', no_oblivious_transfer = True\<rparr> (Some c) = Construct_Alice c True
   \<and> script_main (a\<lparr>no_oblivious_transfer := True\<rparr>) chosen
       = script_main (a\<lparr>no_oblivious_transfer := False\<rparr>) chosen"
  by (simp add: script_main_def main_def)

subsection \<open>The bundle and the transfer table\<close>

lemma pbits_out_loop_spec:
  "pbits_out_loop pb ws acc = Inr po \<Longrightarrow>
   dom po = dom acc \<union> set ws \<and> (\<forall>w \<in> set ws. po w = pb w) \<and> (\<forall>w. w \<notin> set ws \<longrightarrow> po w = acc w)"
proof (induction ws arbitrary: acc)
  case Nil
  then show ?case by simp
next
  case (Cons x xs)
  from Cons.prems obtain p where px: "pb x = Some p"
    and rec: "pbits_out_loop pb xs (acc(x \<mapsto> p)) = Inr po"
    by (auto split: option.splits)
  from Cons.IH [OF rec] have d: "dom po = dom (acc(x \<mapsto> p)) \<union> set xs"
    and v: "\<forall>w \<in> set xs. po w = pb w"
    and o: "\<forall>w. w \<notin> set xs \<longrightarrow> po w = (acc(x \<mapsto> p)) w" by blast+
  have d': "dom po = dom acc \<union> set (x # xs)" using d by simp
  have v': "\<forall>w \<in> set (x # xs). po w = pb w"
  proof
    fix w assume "w \<in> set (x # xs)"
    then show "po w = pb w"
    proof (cases "w \<in> set xs")
      case True
      with v show ?thesis by blast
    next
      case False
      with \<open>w \<in> set (x # xs)\<close> have "w = x" by simp
      with False o px show ?thesis by simp
    qed
  qed
  have o': "\<forall>w. w \<notin> set (x # xs) \<longrightarrow> po w = acc w" using o by simp
  from d' v' o' show ?case by blast
qed

lemma Alice_init_entry:
  assumes "Alice_init c gc ot ls = Inr (st, r)"
  shows "\<exists>po. pbits_out_loop (get_pbits gc) (out c) Map.empty = Inr po
           \<and> alice_entry st = \<lparr> entry_circuit = c, entry_garbled_circuit = gc,
                entry_garbled_tables = get_garbled_tables gc, entry_keys = get_keys gc,
                entry_pbits = get_pbits gc, entry_pbits_out = po \<rparr>
           \<and> get_alice_inputs (get_keys gc) (get_pbits gc) (alice c) ls = Inr (alice_inputs st, r)
           \<and> alice_ot_enabled st = ot"
  using assms
  by (auto simp: Alice_init_def YaoGarbler_init_def split: sum.splits)

text \<open>
  Claim C4.  The bundle that Alice sends, once per run, holds exactly the circuit, the
  garbled tables and the permutation bits of the output wires: its keys are
  \<^verbatim>\<open>"circuit"\<close>, \<^verbatim>\<open>"garbled_tables"\<close> and \<^verbatim>\<open>"pbits_out"\<close>, the permutation bits in it
  are defined on the output wires only, and no value in it is the wire keys or the
  garbled circuit.
\<close>

theorem bundle_is_circuit_tables_pbits_out:
  assumes "Alice_init c gc ot ls = Inr (st, r)"
  shows "[b. Send_wait b \<leftarrow> fst (Alice_start st)] = [to_send (alice_entry st)]
    \<and> dom (to_send (alice_entry st)) = {''circuit'', ''garbled_tables'', ''pbits_out''}
    \<and> to_send (alice_entry st) ''circuit'' = Some (Circuit c)
    \<and> to_send (alice_entry st) ''garbled_tables'' = Some (Tables (get_garbled_tables gc))
    \<and> (\<exists>po. to_send (alice_entry st) ''pbits_out'' = Some (Pbits po)
           \<and> dom po = set (out c) \<and> (\<forall>w \<in> set (out c). po w = get_pbits gc w))
    \<and> (\<forall>k ks. to_send (alice_entry st) k \<noteq> Some (Keys ks))
    \<and> (\<forall>k g. to_send (alice_entry st) k \<noteq> Some (Garbled g))"
proof -
  from Alice_init_entry [OF assms] obtain po where
    lo: "pbits_out_loop (get_pbits gc) (out c) Map.empty = Inr po"
    and en: "alice_entry st = \<lparr> entry_circuit = c, entry_garbled_circuit = gc,
                entry_garbled_tables = get_garbled_tables gc, entry_keys = get_keys gc,
                entry_pbits = get_pbits gc, entry_pbits_out = po \<rparr>"
    by blast
  from pbits_out_loop_spec [OF lo] have po: "dom po = set (out c)"
    "\<forall>w \<in> set (out c). po w = get_pbits gc w" by simp_all
  have once: "[b. Send_wait b \<leftarrow> fst (Alice_start st)] = [to_send (alice_entry st)]"
    by (auto simp: Alice_start_def Alice_print_def Let_def split: sum.splits)
  have d: "dom (to_send (alice_entry st)) = {''circuit'', ''garbled_tables'', ''pbits_out''}"
    by (auto simp: to_send_def)
  have c1: "to_send (alice_entry st) ''circuit'' = Some (Circuit c)"
    by (simp add: to_send_def en)
  have c2: "to_send (alice_entry st) ''garbled_tables'' = Some (Tables (get_garbled_tables gc))"
    by (simp add: to_send_def en)
  have c3: "to_send (alice_entry st) ''pbits_out'' = Some (Pbits po)"
    by (simp add: to_send_def en)
  have nk: "\<forall>k ks. to_send (alice_entry st) k \<noteq> Some (Keys ks)"
    by (simp add: to_send_def)
  have ng: "\<forall>k g. to_send (alice_entry st) k \<noteq> Some (Garbled g)"
    by (simp add: to_send_def)
  from once d c1 c2 c3 po nk ng show ?thesis by blast
qed

lemma b_keys_of_spec:
  assumes "b_keys_of keys pb b_wires = Inr b_keys"
  shows "dom b_keys = set b_wires \<inter> dom keys"
    and "\<forall>w. w \<notin> set b_wires \<longrightarrow> b_keys w = None"
    and "\<forall>w \<in> set b_wires. \<forall>key0 key1. keys w = Some (key0, key1) \<longrightarrow>
           (\<exists>pbit. pb w = Some pbit \<and> b_keys w = Some (get_encr_bits pbit key0 key1))"
proof -
  from assms have ok: "\<forall>w \<in> set b_wires. keys w \<noteq> None \<longrightarrow> pb w \<noteq> None"
    by (auto simp: b_keys_of_def split: if_splits)
  from assms have bk: "b_keys = (\<lambda>w. if w \<in> set b_wires
                     then (case keys w of
                             None \<Rightarrow> None
                           | Some (key0, key1) \<Rightarrow>
                               (case pb w of
                                  None \<Rightarrow> None
                                | Some pbit \<Rightarrow> Some (get_encr_bits pbit key0 key1)))
                     else None)"
    by (auto simp: b_keys_of_def split: if_splits)
  show "dom b_keys = set b_wires \<inter> dom keys"
    using ok by (auto simp: bk dom_def get_encr_bits_def split: option.splits if_splits)
  show "\<forall>w. w \<notin> set b_wires \<longrightarrow> b_keys w = None"
    by (simp add: bk)
  show "\<forall>w \<in> set b_wires. \<forall>key0 key1. keys w = Some (key0, key1) \<longrightarrow>
           (\<exists>pbit. pb w = Some pbit \<and> b_keys w = Some (get_encr_bits pbit key0 key1))"
    using ok by (auto simp: bk split: option.splits)
qed

text \<open>
  Claim C3.  Only Bob's wires go through the oblivious transfer.  The table handed to
  the transfer is defined on the wires of Bob's partition that have a key pair, hence on
  exactly Bob's partition when every wire of Bob has its key pair, and binds each to
  its encrypted-bit pair; every wire of Alice is bound, in the argument that goes to
  Bob directly, to the key and external bit of Alice's own bit, the bit she entered at
  that wire's prompt, and is absent from the transfer table unless it is also listed as
  a wire of Bob.
\<close>

theorem only_bob_wires_through_ot:
  assumes "Alice_init c gc ot ls = Inr (st, r)"
    and "Alice_print st = Inr (Ot_get_result a_inputs b_keys)"
  shows "dom b_keys = set (bob c) \<inter> dom (get_keys gc)
    \<and> (set (bob c) \<subseteq> dom (get_keys gc) \<longrightarrow> dom b_keys = set (bob c))
    \<and> (\<forall>w \<in> set (bob c). \<forall>key0 key1. get_keys gc w = Some (key0, key1) \<longrightarrow>
           (\<exists>pbit. get_pbits gc w = Some pbit \<and> b_keys w = Some (get_encr_bits pbit key0 key1)))
    \<and> dom a_inputs = set (alice c)
    \<and> (\<forall>w \<in> set (alice c). \<exists>v ks p. (v = 0 \<or> v = 1) \<and> get_keys gc w = Some ks
           \<and> get_pbits gc w = Some p \<and> a_inputs w = Some (key_for ks v, p XOR v))
    \<and> (\<forall>i < length (alice c). alice c ! i \<notin> set (drop (Suc i) (alice c)) \<longrightarrow>
           (\<exists>ks p. get_keys gc (alice c ! i) = Some ks \<and> get_pbits gc (alice c ! i) = Some p
              \<and> a_inputs (alice c ! i)
                  = Some (key_for ks (entered_bits ls ! i), p XOR entered_bits ls ! i)))
    \<and> (\<forall>w \<in> set (alice c). w \<notin> set (bob c) \<longrightarrow> b_keys w = None)
    \<and> fst (Alice_start st) = [Send_wait (to_send (alice_entry st)), Ot_get_result a_inputs b_keys]"
proof -
  from Alice_init_entry [OF assms(1)] obtain po where
    en: "alice_entry st = \<lparr> entry_circuit = c, entry_garbled_circuit = gc,
                entry_garbled_tables = get_garbled_tables gc, entry_keys = get_keys gc,
                entry_pbits = get_pbits gc, entry_pbits_out = po \<rparr>"
    and ai: "get_alice_inputs (get_keys gc) (get_pbits gc) (alice c) ls = Inr (alice_inputs st, r)"
    by blast
  from assms(2) have a: "a_inputs = alice_inputs st"
    and bk: "b_keys_of (get_keys gc) (get_pbits gc) (bob c) = Inr b_keys"
    by (auto simp: Alice_print_def Let_def en split: sum.splits)
  note B = b_keys_of_spec [OF bk]
  from ai have l: "alice_inputs_loop (get_keys gc) (get_pbits gc) (alice c) ls Map.empty = Inr (a_inputs, r)"
    by (simp add: get_alice_inputs_def a)
  from alice_inputs_loop_dom [OF l] have d: "dom a_inputs = set (alice c)" by simp
  from alice_inputs_loop_bound [OF l]
  have "\<forall>w \<in> dom a_inputs. alice_bound (get_keys gc) (get_pbits gc) a_inputs w" by simp
  with d have ab: "\<forall>w \<in> set (alice c). \<exists>v ks p. (v = 0 \<or> v = 1) \<and> get_keys gc w = Some ks
           \<and> get_pbits gc w = Some p \<and> a_inputs w = Some (key_for ks v, p XOR v)"
    unfolding alice_bound_def by simp
  from alice_inputs_loop_entered [OF l]
  have own: "\<forall>i < length (alice c). alice c ! i \<notin> set (drop (Suc i) (alice c)) \<longrightarrow>
           (\<exists>ks p. get_keys gc (alice c ! i) = Some ks \<and> get_pbits gc (alice c ! i) = Some p
              \<and> a_inputs (alice c ! i)
                  = Some (key_for ks (entered_bits ls ! i), p XOR entered_bits ls ! i))"
    by blast
  have st: "fst (Alice_start st) = [Send_wait (to_send (alice_entry st)), Ot_get_result a_inputs b_keys]"
    by (simp add: Alice_start_def assms(2))
  have sub: "set (bob c) \<subseteq> dom (get_keys gc) \<longrightarrow> dom b_keys = set (bob c)"
    using B(1) by blast
  from B(1) sub B(3) d ab own B(2) st show ?thesis by blast
qed

theorem bundle_is_circuit_tables_pbits_out_witness:
  "\<exists>st r. Alice_init and2_circuit and2_garbled True [IntVal 1] = Inr (st, r)
     \<and> dom (to_send (alice_entry st)) = {''circuit'', ''garbled_tables'', ''pbits_out''}
     \<and> (\<exists>po. to_send (alice_entry st) ''pbits_out'' = Some (Pbits po) \<and> dom po = {3})"
proof -
  have "\<exists>st r. Alice_init and2_circuit and2_garbled True [IntVal 1] = Inr (st, r)"
    by (simp add: Alice_init_def YaoGarbler_init_def get_alice_inputs_def
        and2_circuit_def and2_garbled_def)
  then obtain st r where i: "Alice_init and2_circuit and2_garbled True [IntVal 1] = Inr (st, r)"
    by blast
  from bundle_is_circuit_tables_pbits_out [OF i] i show ?thesis
    by (auto simp: and2_circuit_def)
qed

theorem only_bob_wires_through_ot_witness:
  "\<exists>st r a_inputs b_keys.
     Alice_init and2_circuit and2_garbled True [NotInt, IntVal 0] = Inr (st, r)
     \<and> Alice_print st = Inr (Ot_get_result a_inputs b_keys)
     \<and> set (bob and2_circuit) \<subseteq> dom (get_keys and2_garbled)
     \<and> dom b_keys = {2} \<and> dom a_inputs = {1} \<and> b_keys 1 = None
     \<and> entered_bits [NotInt, IntVal 0] ! 0 = 0
     \<and> a_inputs 1 = Some (''a0'', 1)"
proof -
  have "\<exists>st r. Alice_init and2_circuit and2_garbled True [NotInt, IntVal 0] = Inr (st, r)
          \<and> (\<exists>a_inputs b_keys. Alice_print st = Inr (Ot_get_result a_inputs b_keys))"
    by (simp add: Alice_init_def YaoGarbler_init_def get_alice_inputs_def Alice_print_def
        b_keys_of_def and2_circuit_def and2_garbled_def Let_def)
  then obtain st r a_inputs b_keys
    where i: "Alice_init and2_circuit and2_garbled True [NotInt, IntVal 0] = Inr (st, r)"
      and p: "Alice_print st = Inr (Ot_get_result a_inputs b_keys)"
    by blast
  have s: "set (bob and2_circuit) \<subseteq> dom (get_keys and2_garbled)"
    by (simp add: and2_circuit_def and2_garbled_def)
  have a: "alice and2_circuit = [1]" "bob and2_circuit = [2]"
    by (simp_all add: and2_circuit_def)
  have k: "get_keys and2_garbled 1 = Some (''a0'', ''a1'')" "get_pbits and2_garbled 1 = Some 1"
    by (simp_all add: and2_garbled_def)
  have eb: "entered_bits [NotInt, IntVal 0] ! 0 = 0" by simp
  note T = only_bob_wires_through_ot [OF i p]
  from T s have
    "dom b_keys = set (bob and2_circuit)" "dom a_inputs = set (alice and2_circuit)"
    "\<forall>w \<in> set (alice and2_circuit). w \<notin> set (bob and2_circuit) \<longrightarrow> b_keys w = None"
    by blast+
  with a have f: "dom b_keys = {2}" "dom a_inputs = {1}" "b_keys 1 = None" by simp_all
  from T have "\<forall>i < length (alice and2_circuit).
       alice and2_circuit ! i \<notin> set (drop (Suc i) (alice and2_circuit)) \<longrightarrow>
           (\<exists>ks p. get_keys and2_garbled (alice and2_circuit ! i) = Some ks
              \<and> get_pbits and2_garbled (alice and2_circuit ! i) = Some p
              \<and> a_inputs (alice and2_circuit ! i)
                  = Some (key_for ks (entered_bits [NotInt, IntVal 0] ! i),
                          p XOR entered_bits [NotInt, IntVal 0] ! i))"
    by blast
  then have "\<exists>ks p. get_keys and2_garbled 1 = Some ks \<and> get_pbits and2_garbled 1 = Some p
              \<and> a_inputs 1 = Some (key_for ks (entered_bits [NotInt, IntVal 0] ! 0),
                          p XOR entered_bits [NotInt, IntVal 0] ! 0)"
    unfolding a by simp
  with k have own: "a_inputs 1 = Some (''a0'', 1)" by (simp add: key_for_def)
  from i p s f eb own show ?thesis by blast
qed

subsection \<open>Bob's loop\<close>

lemma send_evaluation_Inr:
  "send_evaluation en ls = Inr (ev, ls') \<Longrightarrow> is_evaluation ev \<and> evaluation_of en ev"
  by (auto simp: send_evaluation_def split: option.splits payload.splits sum.splits)

lemma listen_Cons_Inr:
  "send_evaluation en ls = Inr (ev, ls') \<Longrightarrow>
   fst (listen (en # rest) ls) = Next_entry en # Send_True # ev # fst (listen rest ls')"
  by (simp split: prod.splits)

lemma listen_Cons_Inl:
  "send_evaluation en ls = Inl e \<Longrightarrow> fst (listen (en # rest) ls) = [Next_entry en, Send_True]"
  by simp

lemma listen_ack_before_evaluation:
  "i < length (fst (listen ens ls)) \<Longrightarrow> is_evaluation (fst (listen ens ls) ! i) \<Longrightarrow>
   2 \<le> i \<and> fst (listen ens ls) ! (i - 1) = Send_True
     \<and> (\<exists>en. fst (listen ens ls) ! (i - 2) = Next_entry en \<and> evaluation_of en (fst (listen ens ls) ! i))"
proof (induction ens arbitrary: ls i)
  case Nil
  then show ?case by simp
next
  case (Cons en rest)
  show ?case
  proof (cases "send_evaluation en ls")
    case (Inl e)
    from Cons.prems show ?thesis
      unfolding listen_Cons_Inl [OF Inl] by (cases i) (auto simp: nth_Cons')
  next
    case (Inr x)
    obtain ev ls' where x: "x = (ev, ls')" by (cases x)
    note eq = listen_Cons_Inr [OF Inr [unfolded x], of rest]
    note se = send_evaluation_Inr [OF Inr [unfolded x]]
    show ?thesis
    proof (cases "i < 3")
      case True
      then have "i = 0 \<or> i = 1 \<or> i = 2" by arith
      with Cons.prems se show ?thesis unfolding eq by auto
    next
      case False
      define j where "j = i - 3"
      from False have j: "i = j + 3" by (simp add: j_def)
      from Cons.prems have a: "j < length (fst (listen rest ls'))"
        and b: "is_evaluation (fst (listen rest ls') ! j)"
        unfolding eq j by simp_all
      from Cons.IH [OF a b] have ih: "2 \<le> j"
        "fst (listen rest ls') ! (j - 1) = Send_True"
        "\<exists>en. fst (listen rest ls') ! (j - 2) = Next_entry en \<and> evaluation_of en (fst (listen rest ls') ! j)"
        by blast+
      from ih(1) have k: "j + 3 - 1 = (j - 1) + 3" "j + 3 - 2 = (j - 2) + 3" by arith+
      have n: "\<And>m. (Next_entry en # Send_True # ev # fst (listen rest ls')) ! (m + 3) = fst (listen rest ls') ! m"
        by (simp add: numeral_3_eq_3)
      from ih show ?thesis unfolding eq j k n by simp
    qed
  qed
qed

lemma listen_next_after_evaluation:
  "i < length (fst (listen ens ls)) \<Longrightarrow> 0 < i \<Longrightarrow> fst (listen ens ls) ! i = Next_entry en' \<Longrightarrow>
   is_evaluation (fst (listen ens ls) ! (i - 1))"
proof (induction ens arbitrary: ls i)
  case Nil
  then show ?case by simp
next
  case (Cons en rest)
  show ?case
  proof (cases "send_evaluation en ls")
    case (Inl e)
    from Cons.prems show ?thesis
      unfolding listen_Cons_Inl [OF Inl] by (cases i) (auto simp: nth_Cons')
  next
    case (Inr x)
    obtain ev ls' where x: "x = (ev, ls')" by (cases x)
    note eq = listen_Cons_Inr [OF Inr [unfolded x], of rest]
    note se = send_evaluation_Inr [OF Inr [unfolded x]]
    have n: "\<And>m. (Next_entry en # Send_True # ev # fst (listen rest ls')) ! (m + 3) = fst (listen rest ls') ! m"
      by (simp add: numeral_3_eq_3)
    show ?thesis
    proof (cases "i < 4")
      case True
      with Cons.prems(2) have "i = 1 \<or> i = 2 \<or> i = 3" by arith
      with Cons.prems se show ?thesis unfolding eq by (auto simp: numeral_3_eq_3)
    next
      case False
      define j where "j = i - 3"
      from False have j: "i = j + 3" and j0: "0 < j" by (simp_all add: j_def)
      from Cons.prems have a: "j < length (fst (listen rest ls'))"
        and b: "fst (listen rest ls') ! j = Next_entry en'"
        unfolding eq j by simp_all
      from Cons.IH [OF a j0 b] have ih: "is_evaluation (fst (listen rest ls') ! (j - 1))" .
      from j0 have k: "j + 3 - 1 = (j - 1) + 3" by arith
      from ih show ?thesis unfolding eq j k n by simp
    qed
  qed
qed

lemma listen_ack_after_next:
  "i < length (fst (listen ens ls)) \<Longrightarrow> fst (listen ens ls) ! i = Next_entry en' \<Longrightarrow>
   i + 1 < length (fst (listen ens ls)) \<and> fst (listen ens ls) ! (i + 1) = Send_True"
proof (induction ens arbitrary: ls i)
  case Nil
  then show ?case by simp
next
  case (Cons en rest)
  show ?case
  proof (cases "send_evaluation en ls")
    case (Inl e)
    from Cons.prems show ?thesis
      unfolding listen_Cons_Inl [OF Inl] by (cases i) (auto simp: nth_Cons')
  next
    case (Inr x)
    obtain ev ls' where x: "x = (ev, ls')" by (cases x)
    note eq = listen_Cons_Inr [OF Inr [unfolded x], of rest]
    note se = send_evaluation_Inr [OF Inr [unfolded x]]
    have n: "\<And>m. (Next_entry en # Send_True # ev # fst (listen rest ls')) ! (m + 3) = fst (listen rest ls') ! m"
      by (simp add: numeral_3_eq_3)
    show ?thesis
    proof (cases "i < 3")
      case True
      then have "i = 0 \<or> i = 1 \<or> i = 2" by arith
      with Cons.prems se show ?thesis unfolding eq by auto
    next
      case False
      define j where "j = i - 3"
      from False have j: "i = j + 3" by (simp add: j_def)
      from Cons.prems have a: "j < length (fst (listen rest ls'))"
        and b: "fst (listen rest ls') ! j = Next_entry en'"
        unfolding eq j by simp_all
      from Cons.IH [OF a b] have ih: "j + 1 < length (fst (listen rest ls'))"
        "fst (listen rest ls') ! (j + 1) = Send_True" by blast+
      have k: "j + 3 + 1 = (j + 1) + 3" by arith
      from ih show ?thesis unfolding eq j k n by simp
    qed
  qed
qed

lemma listen_consumed:
  "consumed (fst (listen ens ls)) = take (length (consumed (fst (listen ens ls)))) ens"
proof (induction ens arbitrary: ls)
  case Nil
  then show ?case by simp
next
  case (Cons en rest)
  show ?case
  proof (cases "send_evaluation en ls")
    case (Inl e)
    then show ?thesis unfolding listen_Cons_Inl [OF Inl] by simp
  next
    case (Inr x)
    obtain ev ls' where x: "x = (ev, ls')" by (cases x)
    note eq = listen_Cons_Inr [OF Inr [unfolded x], of rest]
    from send_evaluation_Inr [OF Inr [unfolded x]] have "consumed (ev # fst (listen rest ls')) = consumed (fst (listen rest ls'))"
      by (cases ev) simp_all
    with Cons.IH [of ls'] show ?thesis unfolding eq by simp
  qed
qed

lemma listen_all_consumed:
  "snd (listen ens ls) = None \<Longrightarrow> consumed (fst (listen ens ls)) = ens"
proof (induction ens arbitrary: ls)
  case Nil
  then show ?case by simp
next
  case (Cons en rest)
  show ?case
  proof (cases "send_evaluation en ls")
    case (Inl e)
    with Cons.prems show ?thesis by simp
  next
    case (Inr x)
    obtain ev ls' where x: "x = (ev, ls')" by (cases x)
    note eq = listen_Cons_Inr [OF Inr [unfolded x], of rest]
    from Cons.prems Inr x have "snd (listen rest ls') = None" by (simp split: prod.splits)
    from Cons.IH [OF this] have ih: "consumed (fst (listen rest ls')) = rest" .
    from send_evaluation_Inr [OF Inr [unfolded x]]
    have "consumed (ev # fst (listen rest ls')) = consumed (fst (listen rest ls'))"
      by (cases ev) simp_all
    with ih show ?thesis unfolding eq by simp
  qed
qed

lemma send_evaluation_returns:
  assumes "well_formed_entry en" and "length (bob_wires_of en) \<le> length (valid_lines ls)"
  shows "\<exists>ev ls'. send_evaluation en ls = Inr (ev, ls')
           \<and> length (valid_lines ls') = length (valid_lines ls) - length (bob_wires_of en)"
proof -
  from assms(1) obtain c t p where c: "en ''circuit'' = Some (Circuit c)"
    and p: "en ''pbits_out'' = Some p" and t: "en ''garbled_tables'' = Some t"
    by (auto simp: well_formed_entry_def split: option.splits payload.splits)
  from c have bw: "bob_wires_of en = bob c" by (simp add: bob_wires_of_def)
  from bob_inputs_loop_returns [of "bob c" ls Map.empty] assms(2) bw
  obtain b ls' where l: "bob_inputs_loop (bob c) ls Map.empty = Inr (b, ls')" by auto
  from bob_inputs_loop_entered [OF l]
  have "entered_bits ls' = drop (length (bob c)) (entered_bits ls)" by blast
  then have "length (entered_bits ls') = length (entered_bits ls) - length (bob c)" by simp
  then have n: "length (valid_lines ls') = length (valid_lines ls) - length (bob_wires_of en)"
    by (simp add: length_entered_bits bw)
  have "send_evaluation en ls = Inr (Ot_send_result c t p b, ls')"
    by (simp add: send_evaluation_def c p t get_bob_inputs_def l)
  with n show ?thesis by blast
qed

lemma listen_progress:
  "list_all well_formed_entry ens \<Longrightarrow>
   sum_list (map (\<lambda>en. length (bob_wires_of en)) ens) \<le> length (valid_lines ls) \<Longrightarrow>
   snd (listen ens ls) = None
   \<and> length (filter is_evaluation (fst (listen ens ls))) = length ens
   \<and> length (fst (listen ens ls)) = 3 * length ens"
proof (induction ens arbitrary: ls)
  case Nil
  then show ?case by simp
next
  case (Cons en rest)
  from Cons.prems have wf: "well_formed_entry en" and wfr: "list_all well_formed_entry rest"
    and here: "length (bob_wires_of en) \<le> length (valid_lines ls)" by simp_all
  from send_evaluation_returns [OF wf here] obtain ev ls' where
    se: "send_evaluation en ls = Inr (ev, ls')"
    and n: "length (valid_lines ls') = length (valid_lines ls) - length (bob_wires_of en)"
    by blast
  from Cons.prems(2) n
  have "sum_list (map (\<lambda>en. length (bob_wires_of en)) rest) \<le> length (valid_lines ls')" by simp
  from Cons.IH [OF wfr this] have ih: "snd (listen rest ls') = None"
    "length (filter is_evaluation (fst (listen rest ls'))) = length rest"
    "length (fst (listen rest ls')) = 3 * length rest" by blast+
  from send_evaluation_Inr [OF se] have ise: "is_evaluation ev" by simp
  have s: "snd (listen (en # rest) ls) = snd (listen rest ls')"
    by (simp add: se split: prod.splits)
  note eq = listen_Cons_Inr [OF se, of rest]
  from ih ise show ?case unfolding eq s by simp
qed

lemma listen_first:
  "take 2 (fst (listen (en # rest) ls)) = [Next_entry en, Send_True]"
  by (cases "send_evaluation en ls") (auto split: prod.splits)

text \<open>
  Claim C8.  In \<^verbatim>\<open>Bob.listen\<close>, every entry that arrives while the loop runs is taken
  and acknowledged with \<^verbatim>\<open>True\<close> at once, before its evaluation starts: the trace of
  a non-empty arrival list begins with the first entry and its acknowledgment; when the
  evaluation of an entry raises, the loop ends there, and when it is sent, the loop goes
  on with the next entry.  Every evaluation that is sent comes directly after the
  acknowledgment, which comes directly after the entry it evaluates was taken; an entry
  other than the first is taken only directly after the evaluation of the one before it
  has been sent; and the entries are taken in their order of arrival.  When every entry
  is readable and the terminal holds enough accepted lines, all entries are taken,
  acknowledged and evaluated, three events each, and no exception ends the loop.
\<close>

theorem listen_acknowledges_then_evaluates_in_order:
  "(\<forall>i < length (fst (listen ens ls)).
      (is_evaluation (fst (listen ens ls) ! i) \<longrightarrow>
         2 \<le> i \<and> fst (listen ens ls) ! (i - 1) = Send_True
         \<and> (\<exists>en. fst (listen ens ls) ! (i - 2) = Next_entry en
                \<and> evaluation_of en (fst (listen ens ls) ! i)))
      \<and> (\<forall>en. fst (listen ens ls) ! i = Next_entry en \<longrightarrow>
             i + 1 < length (fst (listen ens ls))
             \<and> fst (listen ens ls) ! (i + 1) = Send_True
             \<and> (0 < i \<longrightarrow> is_evaluation (fst (listen ens ls) ! (i - 1)))))
   \<and> consumed (fst (listen ens ls)) = take (length (consumed (fst (listen ens ls)))) ens
   \<and> (snd (listen ens ls) = None \<longrightarrow> consumed (fst (listen ens ls)) = ens)
   \<and> take 2 (fst (listen (en0 # rest) ls)) = [Next_entry en0, Send_True]
   \<and> (send_evaluation en0 ls = Inl e \<longrightarrow>
        listen (en0 # rest) ls = ([Next_entry en0, Send_True], Some e))
   \<and> (send_evaluation en0 ls = Inr (ev, ls') \<longrightarrow>
        listen (en0 # rest) ls
          = (Next_entry en0 # Send_True # ev # fst (listen rest ls'), snd (listen rest ls')))
   \<and> (list_all well_formed_entry ens
        \<and> sum_list (map (\<lambda>en. length (bob_wires_of en)) ens) \<le> length (valid_lines ls) \<longrightarrow>
        snd (listen ens ls) = None
        \<and> consumed (fst (listen ens ls)) = ens
        \<and> length (filter is_evaluation (fst (listen ens ls))) = length ens
        \<and> length (fst (listen ens ls)) = 3 * length ens)"
proof -
  have a: "\<forall>i < length (fst (listen ens ls)).
      (is_evaluation (fst (listen ens ls) ! i) \<longrightarrow>
         2 \<le> i \<and> fst (listen ens ls) ! (i - 1) = Send_True
         \<and> (\<exists>en. fst (listen ens ls) ! (i - 2) = Next_entry en
                \<and> evaluation_of en (fst (listen ens ls) ! i)))
      \<and> (\<forall>en. fst (listen ens ls) ! i = Next_entry en \<longrightarrow>
             i + 1 < length (fst (listen ens ls))
             \<and> fst (listen ens ls) ! (i + 1) = Send_True
             \<and> (0 < i \<longrightarrow> is_evaluation (fst (listen ens ls) ! (i - 1))))"
  proof (intro allI impI conjI)
    fix i assume i: "i < length (fst (listen ens ls))"
      and e: "is_evaluation (fst (listen ens ls) ! i)"
    from listen_ack_before_evaluation [OF i e]
    show "2 \<le> i" "fst (listen ens ls) ! (i - 1) = Send_True"
      "\<exists>en. fst (listen ens ls) ! (i - 2) = Next_entry en
                \<and> evaluation_of en (fst (listen ens ls) ! i)"
      by blast+
  next
    fix i en assume i: "i < length (fst (listen ens ls))"
      and n: "fst (listen ens ls) ! i = Next_entry en"
    from listen_ack_after_next [OF i n]
    show "i + 1 < length (fst (listen ens ls))" "fst (listen ens ls) ! (i + 1) = Send_True"
      by blast+
  next
    fix i en assume i: "i < length (fst (listen ens ls))"
      and n: "fst (listen ens ls) ! i = Next_entry en" and p: "0 < i"
    from listen_next_after_evaluation [OF i p n]
    show "is_evaluation (fst (listen ens ls) ! (i - 1))" .
  qed
  have f: "take 2 (fst (listen (en0 # rest) ls)) = [Next_entry en0, Send_True]"
    by (rule listen_first)
  have s1: "send_evaluation en0 ls = Inl e \<longrightarrow>
        listen (en0 # rest) ls = ([Next_entry en0, Send_True], Some e)" by simp
  have s2: "send_evaluation en0 ls = Inr (ev, ls') \<longrightarrow>
        listen (en0 # rest) ls
          = (Next_entry en0 # Send_True # ev # fst (listen rest ls'), snd (listen rest ls'))"
    by (simp split: prod.splits)
  have pr: "list_all well_formed_entry ens
        \<and> sum_list (map (\<lambda>en. length (bob_wires_of en)) ens) \<le> length (valid_lines ls) \<longrightarrow>
        snd (listen ens ls) = None
        \<and> consumed (fst (listen ens ls)) = ens
        \<and> length (filter is_evaluation (fst (listen ens ls))) = length ens
        \<and> length (fst (listen ens ls)) = 3 * length ens"
    using listen_progress [of ens ls] listen_all_consumed [of ens ls] by blast
  from a listen_consumed [of ens ls] listen_all_consumed [of ens ls] f s1 s2 pr
  show ?thesis by blast
qed

theorem listen_acknowledges_then_evaluates_in_order_witness:
  "fst (listen [and2_bundle, and2_bundle] [IntVal 1, IntVal 0]) =
     [Next_entry and2_bundle, Send_True,
      Ot_send_result and2_circuit (Tables Map.empty) (Pbits [3 \<mapsto> 1]) [2 \<mapsto> 1],
      Next_entry and2_bundle, Send_True,
      Ot_send_result and2_circuit (Tables Map.empty) (Pbits [3 \<mapsto> 1]) [2 \<mapsto> 0]]
   \<and> snd (listen [and2_bundle, and2_bundle] [IntVal 1, IntVal 0]) = None
   \<and> (5::nat) < length (fst (listen [and2_bundle, and2_bundle] [IntVal 1, IntVal 0]))
   \<and> is_evaluation (fst (listen [and2_bundle, and2_bundle] [IntVal 1, IntVal 0]) ! 5)
   \<and> fst (listen [and2_bundle, and2_bundle] [IntVal 1, IntVal 0]) ! (5 - 1) = Send_True
   \<and> consumed (fst (listen [and2_bundle, and2_bundle] [IntVal 1, IntVal 0]))
       = [and2_bundle, and2_bundle]
   \<and> list_all well_formed_entry [and2_bundle, and2_bundle]
   \<and> sum_list (map (\<lambda>en. length (bob_wires_of en)) [and2_bundle, and2_bundle])
        \<le> length (valid_lines [IntVal 1, IntVal 0])
   \<and> length (filter is_evaluation (fst (listen [and2_bundle, and2_bundle] [IntVal 1, IntVal 0])))
       = length [and2_bundle, and2_bundle]
   \<and> send_evaluation and2_bundle [] = Inl EOFError
   \<and> listen [and2_bundle, and2_bundle] [] = ([Next_entry and2_bundle, Send_True], Some EOFError)"
proof -
  have se1: "send_evaluation and2_bundle [IntVal 1, IntVal 0] =
      Inr (Ot_send_result and2_circuit (Tables Map.empty) (Pbits [3 \<mapsto> 1]) [2 \<mapsto> 1], [IntVal 0])"
    by (simp add: send_evaluation_def and2_bundle_def get_bob_inputs_def and2_circuit_def)
  have se2: "send_evaluation and2_bundle [IntVal 0] =
      Inr (Ot_send_result and2_circuit (Tables Map.empty) (Pbits [3 \<mapsto> 1]) [2 \<mapsto> 0], [])"
    by (simp add: send_evaluation_def and2_bundle_def get_bob_inputs_def and2_circuit_def)
  have se3: "send_evaluation and2_bundle [] = Inl EOFError"
    by (simp add: send_evaluation_def and2_bundle_def get_bob_inputs_def and2_circuit_def)
  have l: "listen [and2_bundle, and2_bundle] [IntVal 1, IntVal 0] =
     ([Next_entry and2_bundle, Send_True,
      Ot_send_result and2_circuit (Tables Map.empty) (Pbits [3 \<mapsto> 1]) [2 \<mapsto> 1],
      Next_entry and2_bundle, Send_True,
      Ot_send_result and2_circuit (Tables Map.empty) (Pbits [3 \<mapsto> 1]) [2 \<mapsto> 0]], None)"
    by (simp add: se1 se2)
  have len: "(5::nat) < length (fst (listen [and2_bundle, and2_bundle] [IntVal 1, IntVal 0]))"
    unfolding l by simp
  have ev: "is_evaluation (fst (listen [and2_bundle, and2_bundle] [IntVal 1, IntVal 0]) ! 5)"
    unfolding l by simp
  have wf: "list_all well_formed_entry [and2_bundle, and2_bundle]"
    by (simp add: well_formed_entry_def and2_bundle_def)
  have su: "sum_list (map (\<lambda>en. length (bob_wires_of en)) [and2_bundle, and2_bundle])
        \<le> length (valid_lines [IntVal 1, IntVal 0])"
    by (simp add: bob_wires_of_def and2_bundle_def and2_circuit_def valid_lines_def)
  note T = listen_acknowledges_then_evaluates_in_order
         [of "[and2_bundle, and2_bundle]" "[IntVal 1, IntVal 0]"]
  from T len ev wf su
  have r: "fst (listen [and2_bundle, and2_bundle] [IntVal 1, IntVal 0]) ! (5 - 1) = Send_True"
    "snd (listen [and2_bundle, and2_bundle] [IntVal 1, IntVal 0]) = None"
    "consumed (fst (listen [and2_bundle, and2_bundle] [IntVal 1, IntVal 0]))
       = [and2_bundle, and2_bundle]"
    "length (filter is_evaluation (fst (listen [and2_bundle, and2_bundle] [IntVal 1, IntVal 0])))
       = length [and2_bundle, and2_bundle]"
    by blast+
  from listen_acknowledges_then_evaluates_in_order
         [of "[and2_bundle, and2_bundle]" "[]" and2_bundle "[and2_bundle]" EOFError] se3
  have f: "listen [and2_bundle, and2_bundle] [] = ([Next_entry and2_bundle, Send_True], Some EOFError)"
    by blast
  from l have l': "fst (listen [and2_bundle, and2_bundle] [IntVal 1, IntVal 0]) =
     [Next_entry and2_bundle, Send_True,
      Ot_send_result and2_circuit (Tables Map.empty) (Pbits [3 \<mapsto> 1]) [2 \<mapsto> 1],
      Next_entry and2_bundle, Send_True,
      Ot_send_result and2_circuit (Tables Map.empty) (Pbits [3 \<mapsto> 1]) [2 \<mapsto> 0]]"
    by (simp only: fst_conv)
  from l' r(2) len ev r(1) r(3) wf su r(4) se3 f show ?thesis by blast
qed

subsection \<open>Garbled tables\<close>

lemma unseal_seal: "unseal ks (seal ks m) = Some m"
  by (induction ks arbitrary: m) simp_all

lemma xor_bit_cancel: "((x::int) XOR p) XOR p = x"
  by (simp add: xor.assoc)

lemma xor_bit_inj: "((x::int) XOR p) = (y XOR p) \<Longrightarrow> x = y"
  by (metis xor_bit_cancel)

lemma pbit_of_bit: "pbit_of rnd w = 0 \<or> pbit_of rnd w = 1"
  by (simp add: pbit_of_def)

lemma xor_bits: "(x::int) = 0 \<or> x = 1 \<Longrightarrow> p = 0 \<or> p = 1 \<Longrightarrow> x XOR p = 0 \<or> x XOR p = 1"
  by auto

lemma bit_vectors_iff:
  "vals \<in> set (bit_vectors n) \<longleftrightarrow> length vals = n \<and> set vals \<subseteq> {0, 1}"
proof (induction n arbitrary: vals)
  case 0
  then show ?case by auto
next
  case (Suc n)
  show ?case
  proof (cases vals)
    case Nil
    then show ?thesis by auto
  next
    case (Cons x xs)
    then show ?thesis using Suc.IH [of xs] by auto
  qed
qed

lemma row_of_inj:
  "length xs = length ys \<Longrightarrow> set xs \<subseteq> {0, 1} \<Longrightarrow> set ys \<subseteq> {0, 1} \<Longrightarrow>
   row_of xs = row_of ys \<Longrightarrow> xs = ys"
proof (induction xs ys rule: list_induct2)
  case Nil
  then show ?case by simp
next
  case (Cons x xs y ys)
  from Cons.prems have x: "x = 0 \<or> x = 1" and y: "y = 0 \<or> y = 1" by auto
  from Cons.prems have e: "nat x + 2 * row_of xs = nat y + 2 * row_of ys" by simp
  from x y e have "x = y \<and> row_of xs = row_of ys" by auto presburger+
  with Cons show ?case by simp
qed

lemma ext_bits_bits:
  "length ins = length vals \<Longrightarrow> set vals \<subseteq> {0, 1} \<Longrightarrow>
   set (map2 (\<lambda>w x. x XOR pbit_of rnd w) ins vals) \<subseteq> {0, 1}"
proof (induction ins vals rule: list_induct2)
  case Nil
  then show ?case by simp
next
  case (Cons w ws x xs)
  from Cons.prems have "x = 0 \<or> x = 1" by auto
  from xor_bits [OF this pbit_of_bit [of rnd w]] Cons show ?case by auto
qed

lemma ext_bits_inj:
  "length ins = length xs \<Longrightarrow> length xs = length ys \<Longrightarrow>
   map2 (\<lambda>w x. x XOR pbit_of rnd w) ins xs = map2 (\<lambda>w x. x XOR pbit_of rnd w) ins ys \<Longrightarrow>
   xs = ys"
proof (induction ins xs ys rule: list_induct3)
  case Nil
  then show ?case by simp
next
  case (Cons w ws x xs y ys)
  from Cons.prems have "x XOR pbit_of rnd w = y XOR pbit_of rnd w"
    and "map2 (\<lambda>w x. x XOR pbit_of rnd w) ws xs = map2 (\<lambda>w x. x XOR pbit_of rnd w) ws ys"
    by simp_all
  with Cons.IH xor_bit_inj show ?case by blast
qed

lemma row_ext_inj:
  assumes "length xs = length ins" "length ys = length ins"
    and "set xs \<subseteq> {0, 1}" "set ys \<subseteq> {0, 1}"
    and "row_of (map2 (\<lambda>w x. x XOR pbit_of rnd w) ins xs)
         = row_of (map2 (\<lambda>w x. x XOR pbit_of rnd w) ins ys)"
  shows "xs = ys"
proof -
  have "map2 (\<lambda>w x. x XOR pbit_of rnd w) ins xs = map2 (\<lambda>w x. x XOR pbit_of rnd w) ins ys"
  proof (rule row_of_inj)
    show "length (map2 (\<lambda>w x. x XOR pbit_of rnd w) ins xs)
          = length (map2 (\<lambda>w x. x XOR pbit_of rnd w) ins ys)"
      using assms(1,2) by simp
    show "set (map2 (\<lambda>w x. x XOR pbit_of rnd w) ins xs) \<subseteq> {0, 1}"
      using ext_bits_bits [of ins xs rnd] assms(1,3) by simp
    show "set (map2 (\<lambda>w x. x XOR pbit_of rnd w) ins ys) \<subseteq> {0, 1}"
      using ext_bits_bits [of ins ys rnd] assms(2,4) by simp
    show "row_of (map2 (\<lambda>w x. x XOR pbit_of rnd w) ins xs)
         = row_of (map2 (\<lambda>w x. x XOR pbit_of rnd w) ins ys)" by (rule assms(5))
  qed
  with assms(1,2) show ?thesis using ext_bits_inj [of ins xs ys rnd] by simp
qed


lemma fold_garble_row_other:
  "\<forall>x \<in> set xs. row_of (map2 (\<lambda>w x. x XOR pbit_of rnd w) (gate_in g) x) \<noteq> r \<Longrightarrow>
   fold (garble_row rnd g) xs tbl r = tbl r"
proof (induction xs arbitrary: tbl)
  case Nil
  then show ?case by simp
next
  case (Cons x xs)
  from Cons.prems have rest: "\<forall>y \<in> set xs. row_of (map2 (\<lambda>w x. x XOR pbit_of rnd w) (gate_in g) y) \<noteq> r"
    and here: "row_of (map2 (\<lambda>w x. x XOR pbit_of rnd w) (gate_in g) x) \<noteq> r" by simp_all
  from here have "garble_row rnd g x tbl r = tbl r"
    by (simp add: garble_row_def split: option.splits)
  with Cons.IH [OF rest, of "garble_row rnd g x tbl"] show ?case by simp
qed

lemma fold_garble_row_at:
  assumes "vals \<in> set xs"
    and "\<forall>x \<in> set xs. \<forall>y \<in> set xs.
           row_of (map2 (\<lambda>w x. x XOR pbit_of rnd w) (gate_in g) x)
           = row_of (map2 (\<lambda>w x. x XOR pbit_of rnd w) (gate_in g) y) \<longrightarrow> x = y"
    and "gate_output (gate_type g) vals = Some v"
  shows "fold (garble_row rnd g) xs tbl
           (row_of (map2 (\<lambda>w x. x XOR pbit_of rnd w) (gate_in g) vals))
         = Some (seal (map2 (\<lambda>w x. key_for (rnd_keys rnd w) x) (gate_in g) vals)
                  (Plain (key_for (rnd_keys rnd (gate_id g)) v) (v XOR pbit_of rnd (gate_id g))))"
  using assms(1,2)
proof (induction xs arbitrary: tbl)
  case Nil
  then show ?case by simp
next
  case (Cons x xs)
  show ?case
  proof (cases "vals \<in> set xs")
    case True
    from Cons.prems(2) have "\<forall>x \<in> set xs. \<forall>y \<in> set xs.
           row_of (map2 (\<lambda>w x. x XOR pbit_of rnd w) (gate_in g) x)
           = row_of (map2 (\<lambda>w x. x XOR pbit_of rnd w) (gate_in g) y) \<longrightarrow> x = y" by simp
    from Cons.IH [OF True this] show ?thesis by simp
  next
    case False
    with Cons.prems(1) have vx: "vals = x" by simp
    have "\<forall>y \<in> set xs. row_of (map2 (\<lambda>w x. x XOR pbit_of rnd w) (gate_in g) y)
            \<noteq> row_of (map2 (\<lambda>w x. x XOR pbit_of rnd w) (gate_in g) vals)"
    proof
      fix y assume y: "y \<in> set xs"
      show "row_of (map2 (\<lambda>w x. x XOR pbit_of rnd w) (gate_in g) y)
            \<noteq> row_of (map2 (\<lambda>w x. x XOR pbit_of rnd w) (gate_in g) vals)"
      proof
        assume "row_of (map2 (\<lambda>w x. x XOR pbit_of rnd w) (gate_in g) y)
            = row_of (map2 (\<lambda>w x. x XOR pbit_of rnd w) (gate_in g) vals)"
        with Cons.prems(2) y vx have "y = vals" by simp
        with y False show False by simp
      qed
    qed
    from fold_garble_row_other [OF this, of "garble_row rnd g x tbl"]
    have a: "fold (garble_row rnd g) xs (garble_row rnd g x tbl)
               (row_of (map2 (\<lambda>w x. x XOR pbit_of rnd w) (gate_in g) vals))
             = garble_row rnd g x tbl (row_of (map2 (\<lambda>w x. x XOR pbit_of rnd w) (gate_in g) vals))" .
    have b: "garble_row rnd g x tbl (row_of (map2 (\<lambda>w x. x XOR pbit_of rnd w) (gate_in g) vals))
             = Some (seal (map2 (\<lambda>w x. key_for (rnd_keys rnd w) x) (gate_in g) vals)
                  (Plain (key_for (rnd_keys rnd (gate_id g)) v) (v XOR pbit_of rnd (gate_id g))))"
      by (simp add: vx [symmetric] garble_row_def assms(3))
    have c: "fold (garble_row rnd g) (x # xs) tbl = fold (garble_row rnd g) xs (garble_row rnd g x tbl)"
      by simp
    show ?thesis unfolding c a b ..
  qed
qed

lemma garble_gate_row:
  assumes "length vals = length (gate_in g)" and "set vals \<subseteq> {0, 1}"
    and "gate_output (gate_type g) vals = Some v"
  shows "garble_gate rnd g (row_of (map2 (\<lambda>w x. x XOR pbit_of rnd w) (gate_in g) vals))
         = Some (seal (map2 (\<lambda>w x. key_for (rnd_keys rnd w) x) (gate_in g) vals)
                  (Plain (key_for (rnd_keys rnd (gate_id g)) v) (v XOR pbit_of rnd (gate_id g))))"
  unfolding garble_gate_def
proof (rule fold_garble_row_at [OF _ _ assms(3)])
  show "vals \<in> set (bit_vectors (length (gate_in g)))"
    using assms(1,2) by (simp add: bit_vectors_iff)
  show "\<forall>x \<in> set (bit_vectors (length (gate_in g))). \<forall>y \<in> set (bit_vectors (length (gate_in g))).
           row_of (map2 (\<lambda>w x. x XOR pbit_of rnd w) (gate_in g) x)
           = row_of (map2 (\<lambda>w x. x XOR pbit_of rnd w) (gate_in g) y) \<longrightarrow> x = y"
    using row_ext_inj [of _ "gate_in g" _ rnd] by (auto simp: bit_vectors_iff)
qed

lemma check_gates_fresh:
  "check_gates D gs \<Longrightarrow> distinct (map gate_id gs) \<and> (\<forall>g \<in> set gs. gate_id g \<notin> set D)"
proof (induction gs arbitrary: D)
  case Nil
  then show ?case by simp
next
  case (Cons h gs)
  from Cons.prems have h: "gate_id h \<notin> set D" and rest: "check_gates (gate_id h # D) gs"
    by simp_all
  from Cons.IH [OF rest] have d: "distinct (map gate_id gs)"
    and f: "\<forall>g \<in> set gs. gate_id g \<notin> set (gate_id h # D)" by blast+
  from f have "gate_id h \<notin> gate_id ` set gs" by auto
  with d h f show ?case by auto
qed

lemma garble_gates_other:
  "w \<notin> gate_id ` set gs \<Longrightarrow> garble_gates rnd gs T w = T w"
  by (induction gs arbitrary: T) auto

lemma garble_gates_at:
  "distinct (map gate_id gs) \<Longrightarrow> g \<in> set gs \<Longrightarrow>
   garble_gates rnd gs T (gate_id g) = Some (garble_gate rnd g)"
proof (induction gs arbitrary: T)
  case Nil
  then show ?case by simp
next
  case (Cons h gs)
  show ?case
  proof (cases "g \<in> set gs")
    case True
    with Cons show ?thesis by simp
  next
    case False
    with Cons.prems have gh: "g = h" by simp
    from Cons.prems have "gate_id h \<notin> gate_id ` set gs" by simp
    from garble_gates_other [OF this] show ?thesis by (simp add: gh)
  qed
qed

lemma gate_output_total:
  assumes "arity_ok g" and "length vals = length (gate_in g)" and "set vals \<subseteq> {0, 1}"
  shows "\<exists>v. (v = 0 \<or> v = 1) \<and> gate_output (gate_type g) vals = Some v"
proof (cases "gate_type g")
  case Not_gate
  with assms(1,2) obtain a where "vals = [a]"
    by (auto simp: arity_ok_def length_Suc_conv)
  with assms(3) Not_gate show ?thesis by auto
next
  case And_gate
  with assms(1,2) obtain a b where "vals = [a, b]"
    by (auto simp: arity_ok_def length_Suc_conv numeral_2_eq_2)
  with assms(3) And_gate show ?thesis by auto
next
  case Or_gate
  with assms(1,2) obtain a b where "vals = [a, b]"
    by (auto simp: arity_ok_def length_Suc_conv numeral_2_eq_2)
  with assms(3) Or_gate show ?thesis by auto
next
  case Xor_gate
  with assms(1,2) obtain a b where "vals = [a, b]"
    by (auto simp: arity_ok_def length_Suc_conv numeral_2_eq_2)
  with assms(3) Xor_gate show ?thesis by auto
qed

subsection \<open>The evaluator's invariant\<close>

lemma those_map_Some:
  "set xs \<subseteq> dom f \<Longrightarrow> those (map f xs) = Some (map (\<lambda>x. the (f x)) xs)"
  by (induction xs) auto

lemma map2_map_same: "map2 f xs (map h xs) = map (\<lambda>x. f x (h x)) xs"
  by (induction xs) simp_all

lemma labels_agree_Some:
  "labels_agree rnd vs ws \<Longrightarrow> vs w = Some v \<Longrightarrow>
   (v = 0 \<or> v = 1) \<and> ws w = Some (wire_label rnd w v)"
  unfolding labels_agree_def by (drule spec [of _ w]) simp

lemma labels_agree_None:
  "labels_agree rnd vs ws \<Longrightarrow> vs w = None \<Longrightarrow> ws w = None"
  unfolding labels_agree_def by (drule spec [of _ w]) simp

lemma labels_agree_upd:
  assumes "labels_agree rnd vs ws" and "v = 0 \<or> v = 1"
  shows "labels_agree rnd (vs(x \<mapsto> v)) (ws(x \<mapsto> wire_label rnd x v))"
  unfolding labels_agree_def
proof
  fix w
  show "case (vs(x \<mapsto> v)) w of
          None \<Rightarrow> (ws(x \<mapsto> wire_label rnd x v)) w = None
        | Some u \<Rightarrow> (u = 0 \<or> u = 1) \<and> (ws(x \<mapsto> wire_label rnd x v)) w = Some (wire_label rnd w u)"
  proof (cases "w = x")
    case True
    with assms(2) show ?thesis by simp
  next
    case False
    show ?thesis
    proof (cases "vs w")
      case None
      from labels_agree_None [OF assms(1) None] None False show ?thesis by simp
    next
      case (Some u)
      from labels_agree_Some [OF assms(1) Some] Some False show ?thesis by simp
    qed
  qed
qed

lemma eval_gate_step:
  assumes R: "labels_agree rnd vs ws" and ar: "arity_ok g"
    and ins: "set (gate_in g) \<subseteq> dom vs"
    and T: "T (gate_id g) = Some (garble_gate rnd g)"
  shows "\<exists>v. (v = 0 \<or> v = 1)
           \<and> those (map vs (gate_in g)) = Some (map (\<lambda>w. the (vs w)) (gate_in g))
           \<and> gate_output (gate_type g) (map (\<lambda>w. the (vs w)) (gate_in g)) = Some v
           \<and> eval_gate T ws g = Inr (ws(gate_id g \<mapsto> wire_label rnd (gate_id g) v))"
proof -
  let ?vals = "map (\<lambda>w. the (vs w)) (gate_in g)"
  have tv: "those (map vs (gate_in g)) = Some ?vals" by (rule those_map_Some [OF ins])
  have bits: "set ?vals \<subseteq> {0, 1}"
  proof
    fix x assume "x \<in> set ?vals"
    then obtain w where w: "w \<in> set (gate_in g)" and x: "x = the (vs w)" by auto
    from w ins obtain v where v: "vs w = Some v" by auto
    from labels_agree_Some [OF R v] x v show "x \<in> {0, 1}" by auto
  qed
  have len: "length ?vals = length (gate_in g)" by simp
  from gate_output_total [OF ar len bits] obtain v where vb: "v = 0 \<or> v = 1"
    and go: "gate_output (gate_type g) ?vals = Some v" by blast
  have ws_eq: "\<forall>w \<in> set (gate_in g). ws w = Some (wire_label rnd w (the (vs w)))"
  proof
    fix w assume "w \<in> set (gate_in g)"
    with ins obtain u where u: "vs w = Some u" by auto
    from labels_agree_Some [OF R u] u show "ws w = Some (wire_label rnd w (the (vs w)))" by simp
  qed
  then have wsub: "set (gate_in g) \<subseteq> dom ws" by auto
  have "map (\<lambda>w. the (ws w)) (gate_in g) = map (\<lambda>w. wire_label rnd w (the (vs w))) (gate_in g)"
    using ws_eq by simp
  with those_map_Some [OF wsub]
  have tw: "those (map ws (gate_in g)) = Some (map (\<lambda>w. wire_label rnd w (the (vs w))) (gate_in g))"
    by simp
  have s: "map snd (map (\<lambda>w. wire_label rnd w (the (vs w))) (gate_in g))
           = map2 (\<lambda>w x. x XOR pbit_of rnd w) (gate_in g) ?vals"
    by (simp add: map2_map_same wire_label_def comp_def)
  have f: "map fst (map (\<lambda>w. wire_label rnd w (the (vs w))) (gate_in g))
           = map2 (\<lambda>w x. key_for (rnd_keys rnd w) x) (gate_in g) ?vals"
    by (simp add: map2_map_same wire_label_def comp_def)
  have r1: "garble_gate rnd g
              (row_of (map snd (map (\<lambda>w. wire_label rnd w (the (vs w))) (gate_in g))))
            = Some (seal (map fst (map (\<lambda>w. wire_label rnd w (the (vs w))) (gate_in g)))
                  (Plain (key_for (rnd_keys rnd (gate_id g)) v) (v XOR pbit_of rnd (gate_id g))))"
    unfolding s f by (rule garble_gate_row [OF len bits go])
  have wl: "wire_label rnd (gate_id g) v
            = (key_for (rnd_keys rnd (gate_id g)) v, v XOR pbit_of rnd (gate_id g))"
    by (simp add: wire_label_def)
  have "eval_gate T ws g = Inr (ws(gate_id g \<mapsto> wire_label rnd (gate_id g) v))"
    by (simp add: eval_gate_def tw T r1 unseal_seal wl del: map_map)
  with vb tv go show ?thesis by blast
qed

lemma eval_gates_agree:
  assumes "check_gates D gs" and "set D \<subseteq> dom vs" and "labels_agree rnd vs ws"
    and "\<forall>g \<in> set gs. T (gate_id g) = Some (garble_gate rnd g)"
  shows "\<exists>vs' ws'. plain_gates gs vs = Some vs' \<and> eval_gates T gs ws = Inr ws'
           \<and> labels_agree rnd vs' ws' \<and> dom vs' = dom vs \<union> gate_id ` set gs"
  using assms
proof (induction gs arbitrary: D vs ws)
  case Nil
  then show ?case by simp
next
  case (Cons g gs)
  from Cons.prems(1) have ar: "arity_ok g" and ins: "set (gate_in g) \<subseteq> set D"
    and rest: "check_gates (gate_id g # D) gs" by simp_all
  from ins Cons.prems(2) have ins': "set (gate_in g) \<subseteq> dom vs" by blast
  from Cons.prems(4) have Tg: "T (gate_id g) = Some (garble_gate rnd g)" by simp
  from eval_gate_step [where T = T, OF Cons.prems(3) ar ins' Tg] obtain v where vb: "v = 0 \<or> v = 1"
    and tv: "those (map vs (gate_in g)) = Some (map (\<lambda>w. the (vs w)) (gate_in g))"
    and go: "gate_output (gate_type g) (map (\<lambda>w. the (vs w)) (gate_in g)) = Some v"
    and ev: "eval_gate T ws g = Inr (ws(gate_id g \<mapsto> wire_label rnd (gate_id g) v))"
    by blast
  have D': "set (gate_id g # D) \<subseteq> dom (vs(gate_id g \<mapsto> v))"
    using Cons.prems(2) by auto
  have R': "labels_agree rnd (vs(gate_id g \<mapsto> v)) (ws(gate_id g \<mapsto> wire_label rnd (gate_id g) v))"
    by (rule labels_agree_upd [OF Cons.prems(3) vb])
  from Cons.prems(4) have T': "\<forall>h \<in> set gs. T (gate_id h) = Some (garble_gate rnd h)" by simp
  from Cons.IH [OF rest D' R' T'] obtain vs' ws' where
    p: "plain_gates gs (vs(gate_id g \<mapsto> v)) = Some vs'"
    and e: "eval_gates T gs (ws(gate_id g \<mapsto> wire_label rnd (gate_id g) v)) = Inr ws'"
    and r: "labels_agree rnd vs' ws'"
    and d: "dom vs' = dom (vs(gate_id g \<mapsto> v)) \<union> gate_id ` set gs" by blast
  have p': "plain_gates (g # gs) vs = Some vs'" by (simp add: tv go p)
  have e': "eval_gates T (g # gs) ws = Inr ws'" by (simp add: ev e)
  have d': "dom vs' = dom vs \<union> gate_id ` set (g # gs)" using d by auto
  from p' e' r d' show ?case by blast
qed

lemma outputs_agree:
  assumes "labels_agree rnd vs ws" and "set outs \<subseteq> dom vs"
    and "\<forall>w \<in> set outs. po w = Some (pbit_of rnd w)"
  shows "\<exists>res. decode_outputs ws po outs acc = Inr res \<and> plain_outputs vs outs acc = Some res
           \<and> dom res = dom acc \<union> set outs"
  using assms(2,3)
proof (induction outs arbitrary: acc)
  case Nil
  then show ?case by simp
next
  case (Cons w outs)
  from Cons.prems(1) obtain v where v: "vs w = Some v" by auto
  from labels_agree_Some [OF assms(1) v] have wsw: "ws w = Some (wire_label rnd w v)" by simp
  from Cons.prems(2) have pw: "po w = Some (pbit_of rnd w)" by simp
  from Cons.prems have a: "set outs \<subseteq> dom vs" and b: "\<forall>w \<in> set outs. po w = Some (pbit_of rnd w)"
    by simp_all
  from Cons.IH [OF a b, of "acc(w \<mapsto> v)"] obtain res where
    d: "decode_outputs ws po outs (acc(w \<mapsto> v)) = Inr res"
    and p: "plain_outputs vs outs (acc(w \<mapsto> v)) = Some res"
    and dm: "dom res = dom (acc(w \<mapsto> v)) \<union> set outs" by blast
  have d': "decode_outputs ws po (w # outs) acc = Inr res"
    by (simp add: wsw pw wire_label_def xor_bit_cancel d)
  have p': "plain_outputs vs (w # outs) acc = Some res" by (simp add: v p)
  from d' p' dm show ?case by auto
qed

subsection \<open>The round trip\<close>

lemma alice_inputs_loop_typed:
  assumes "length ws = length A" and "set A \<subseteq> {0, 1}" and "distinct ws"
    and "\<forall>w \<in> set ws. keys w = Some (rnd_keys rnd w) \<and> pb w = Some (pbit_of rnd w)"
  shows "\<exists>m. alice_inputs_loop keys pb ws (map IntVal A) acc = Inr (m, [])
           \<and> (\<forall>w. m w = (case map_of (zip ws A) w of
                             None \<Rightarrow> acc w
                           | Some v \<Rightarrow> Some (wire_label rnd w v)))"
  using assms
proof (induction ws A arbitrary: acc rule: list_induct2)
  case Nil
  then show ?case by simp
next
  case (Cons w ws a A)
  from Cons.prems have a: "a = 0 \<or> a = 1" and A: "set A \<subseteq> {0, 1}"
    and d: "distinct ws" and nw: "w \<notin> set ws"
    and kw: "keys w = Some (rnd_keys rnd w)" and pw: "pb w = Some (pbit_of rnd w)"
    and rest: "\<forall>x \<in> set ws. keys x = Some (rnd_keys rnd x) \<and> pb x = Some (pbit_of rnd x)"
    by auto
  from a have rb: "read_bit (map IntVal (a # A)) = Inr (a, map IntVal A)" by auto
  have lbl: "(key_for (rnd_keys rnd w) a, pbit_of rnd w XOR a) = wire_label rnd w a"
    by (simp add: wire_label_def xor.commute)
  from Cons.IH [OF A d rest, of "acc(w \<mapsto> wire_label rnd w a)"] obtain m where
    m: "alice_inputs_loop keys pb ws (map IntVal A) (acc(w \<mapsto> wire_label rnd w a)) = Inr (m, [])"
    and mv: "\<forall>x. m x = (case map_of (zip ws A) x of
                             None \<Rightarrow> (acc(w \<mapsto> wire_label rnd w a)) x
                           | Some v \<Rightarrow> Some (wire_label rnd x v))" by blast
  have step: "alice_inputs_loop keys pb (w # ws) (map IntVal (a # A)) acc = Inr (m, [])"
    unfolding alice_inputs_loop.simps rb by (simp add: kw pw lbl m)
  have none: "map_of (zip ws A) w = None"
    using nw Cons.hyps by (simp add: map_of_zip_is_None)
  have "\<forall>x. m x = (case map_of (zip (w # ws) (a # A)) x of
                             None \<Rightarrow> acc x
                           | Some v \<Rightarrow> Some (wire_label rnd x v))"
  proof
    fix x
    show "m x = (case map_of (zip (w # ws) (a # A)) x of
                             None \<Rightarrow> acc x
                           | Some v \<Rightarrow> Some (wire_label rnd x v))"
    proof (cases "x = w")
      case True
      with mv none show ?thesis by simp
    next
      case False
      with mv show ?thesis by (simp split: option.splits)
    qed
  qed
  with step show ?case by blast
qed

lemma pbits_out_loop_returns:
  "\<forall>w \<in> set ws. pb w \<noteq> None \<Longrightarrow> \<exists>po. pbits_out_loop pb ws acc = Inr po"
  by (induction ws arbitrary: acc) auto

lemma map_of_zip_bits:
  "length ws = length A \<Longrightarrow> set A \<subseteq> {0, 1} \<Longrightarrow> map_of (zip ws A) w = Some v \<Longrightarrow> v = 0 \<or> v = (1::int)"
  by (auto dest!: map_of_SomeD set_zip_rightD)

lemma initial_labels_agree:
  assumes la: "length (alice c) = length A" and A: "set A \<subseteq> {0, 1}"
    and dis: "distinct (alice c @ bob c)"
    and dB: "dom B = set (bob c)" and rB: "ran B \<subseteq> {0, 1}"
    and ai: "\<forall>w. a_inputs w = (case map_of (zip (alice c) A) w of
                             None \<Rightarrow> None
                           | Some v \<Rightarrow> Some (wire_label rnd w v))"
    and bk: "\<forall>w. b_keys w = (if w \<in> set (bob c)
               then Some (get_encr_bits (pbit_of rnd w) (fst (rnd_keys rnd w)) (snd (rnd_keys rnd w)))
               else None)"
  shows "labels_agree rnd (map_of (zip (alice c) A) ++ B) (a_inputs ++ ot_receive b_keys B)"
  unfolding labels_agree_def
proof
  fix w
  show "case (map_of (zip (alice c) A) ++ B) w of
          None \<Rightarrow> (a_inputs ++ ot_receive b_keys B) w = None
        | Some v \<Rightarrow> (v = 0 \<or> v = 1)
            \<and> (a_inputs ++ ot_receive b_keys B) w = Some (wire_label rnd w v)"
  proof (cases "B w")
    case None
    then have ot: "ot_receive b_keys B w = None"
      by (simp add: ot_receive_def split: option.splits)
    show ?thesis
    proof (cases "map_of (zip (alice c) A) w")
      case N: None
      with None ot ai show ?thesis by (simp add: map_add_def)
    next
      case (Some v)
      from map_of_zip_bits [OF la A Some] Some None ot ai show ?thesis
        by (simp add: map_add_def)
    qed
  next
    case (Some v)
    with dB have wb: "w \<in> set (bob c)" by auto
    from Some rB have v: "v = 0 \<or> v = 1" by (auto simp: ran_def)
    from v have "ot_receive b_keys B w = Some (wire_label rnd w v)"
      using bk wb Some
      by (auto simp: ot_receive_def get_encr_bits_def wire_label_def key_for_def)
    with Some v show ?thesis by (simp add: map_add_def)
  qed
qed

lemma GarbledCircuit_covers_inputs:
  assumes "GarbledCircuit c rnd = Inr gc"
  shows "set (alice c) \<subseteq> dom (get_keys gc) \<inter> dom (get_pbits gc)"
    and "set (bob c) \<subseteq> dom (get_keys gc) \<inter> dom (get_pbits gc)"
proof -
  from assms have gc: "gc = \<lparr> get_pbits = (\<lambda>w. if w \<in> set (wires_of c) then Some (pbit_of rnd w) else None),
                 get_garbled_tables = garble_gates rnd (gates c) Map.empty,
                 get_keys = (\<lambda>w. if w \<in> set (wires_of c) then Some (rnd_keys rnd w) else None) \<rparr>"
    by (simp add: GarbledCircuit_def split: if_splits)
  show "set (alice c) \<subseteq> dom (get_keys gc) \<inter> dom (get_pbits gc)"
    by (auto simp: gc wires_of_def)
  show "set (bob c) \<subseteq> dom (get_keys gc) \<inter> dom (get_pbits gc)"
    by (auto simp: gc wires_of_def)
qed

text \<open>
  Claim C1.  Round trip: for a well-formed circuit, bits \<open>A\<close> for Alice's wires and bits
  \<open>B\<close> for Bob's wires, and any key material, the protocol run (garbling, Alice's
  inputs, the transfer of Bob's keys, evaluation of the garbled circuit and decoding)
  succeeds and its result is the plaintext evaluation of the circuit on \<open>(A, B)\<close>,
  defined on the output wires.  Gates of all four types and any depth are covered.
\<close>

theorem garbled_evaluation_equals_plaintext:
  assumes ok: "circuit_ok c"
    and la: "length A = length (alice c)" and A: "set A \<subseteq> {0, 1}"
    and dB: "dom B = set (bob c)" and rB: "ran B \<subseteq> {0, 1}"
  shows "\<exists>res. yao_run c rnd A B = Inr res
           \<and> plain_eval c (map_of (zip (alice c) A)) B = Some res
           \<and> dom res = set (out c)"
proof -
  define gc where "gc = \<lparr> get_pbits = (\<lambda>w. if w \<in> set (wires_of c) then Some (pbit_of rnd w) else None),
                 get_garbled_tables = garble_gates rnd (gates c) Map.empty,
                 get_keys = (\<lambda>w. if w \<in> set (wires_of c) then Some (rnd_keys rnd w) else None) \<rparr>"
  from ok have g: "GarbledCircuit c rnd = Inr gc" by (simp add: GarbledCircuit_def gc_def)
  from ok have dis: "distinct (alice c @ bob c)"
    and chk: "check_gates (alice c @ bob c) (gates c)"
    and outs: "set (out c) \<subseteq> set (wires_of c)" by (simp_all add: circuit_ok_def)
  have pb_out: "\<forall>w \<in> set (out c). get_pbits gc w \<noteq> None" using outs by (auto simp: gc_def)
  from pbits_out_loop_returns [OF pb_out] obtain po where
    po: "pbits_out_loop (get_pbits gc) (out c) Map.empty = Inr po" by blast
  from pbits_out_loop_spec [OF po] outs
  have pov: "\<forall>w \<in> set (out c). po w = Some (pbit_of rnd w)" by (auto simp: gc_def)
  define en where "en = \<lparr> entry_circuit = c, entry_garbled_circuit = gc,
                entry_garbled_tables = get_garbled_tables gc, entry_keys = get_keys gc,
                entry_pbits = get_pbits gc, entry_pbits_out = po \<rparr>"
  have yi: "YaoGarbler_init c gc = Inr en" by (simp add: YaoGarbler_init_def po en_def)
  have akeys: "\<forall>w \<in> set (alice c). get_keys gc w = Some (rnd_keys rnd w)
                 \<and> get_pbits gc w = Some (pbit_of rnd w)"
    by (simp add: gc_def wires_of_def)
  from dis have da: "distinct (alice c)" by simp
  from alice_inputs_loop_typed [OF la [symmetric] A da akeys, of Map.empty] obtain a_inputs where
    al: "alice_inputs_loop (get_keys gc) (get_pbits gc) (alice c) (map IntVal A) Map.empty
           = Inr (a_inputs, [])"
    and av: "\<forall>w. a_inputs w = (case map_of (zip (alice c) A) w of
                             None \<Rightarrow> None
                           | Some v \<Rightarrow> Some (wire_label rnd w v))" by blast
  have gai: "get_alice_inputs (entry_keys en) (entry_pbits en) (alice c) (map IntVal A)
               = Inr (a_inputs, [])"
    by (simp add: get_alice_inputs_def en_def al)
  define b_keys where "b_keys = (\<lambda>w. if w \<in> set (bob c)
               then Some (get_encr_bits (pbit_of rnd w) (fst (rnd_keys rnd w)) (snd (rnd_keys rnd w)))
               else None)"
  have bko: "b_keys_of (entry_keys en) (entry_pbits en) (bob c) = Inr b_keys"
    by (auto simp: b_keys_of_def en_def gc_def b_keys_def wires_of_def fun_eq_iff
        split: prod.splits)
  have bkv: "\<forall>w. b_keys w = (if w \<in> set (bob c)
               then Some (get_encr_bits (pbit_of rnd w) (fst (rnd_keys rnd w)) (snd (rnd_keys rnd w)))
               else None)" by (simp add: b_keys_def)
  note R0 = initial_labels_agree [OF la [symmetric] A dis dB rB av bkv]
  have dA: "dom (map_of (zip (alice c) A)) = set (alice c)"
    using la by (simp add: dom_map_of_zip)
  have D0: "set (alice c @ bob c) \<subseteq> dom (map_of (zip (alice c) A) ++ B)"
    using dA dB by auto
  from check_gates_fresh [OF chk] have dg: "distinct (map gate_id (gates c))" by blast
  have T: "\<forall>g \<in> set (gates c). garble_gates rnd (gates c) Map.empty (gate_id g) = Some (garble_gate rnd g)"
    using garble_gates_at [OF dg] by blast
  from eval_gates_agree [OF chk D0 R0 T] obtain vs' ws' where
    pg: "plain_gates (gates c) (map_of (zip (alice c) A) ++ B) = Some vs'"
    and eg: "eval_gates (garble_gates rnd (gates c) Map.empty) (gates c)
               (a_inputs ++ ot_receive b_keys B) = Inr ws'"
    and R: "labels_agree rnd vs' ws'"
    and dv: "dom vs' = dom (map_of (zip (alice c) A) ++ B) \<union> gate_id ` set (gates c)" by blast
  have "set (out c) \<subseteq> dom vs'" using outs dv dA dB by (auto simp: wires_of_def)
  from outputs_agree [OF R this pov, of Map.empty] obtain res where
    de: "decode_outputs ws' po (out c) Map.empty = Inr res"
    and pl: "plain_outputs vs' (out c) Map.empty = Some res"
    and dr: "dom res = set (out c)" by auto
  have ev: "evaluate c (entry_garbled_tables en) (entry_pbits_out en) a_inputs (ot_receive b_keys B)
              = Inr res"
    by (simp add: evaluate_def en_def gc_def eg de)
  have "yao_run c rnd A B = Inr res"
    by (simp add: yao_run_def g yi gai bko ev)
  moreover have "plain_eval c (map_of (zip (alice c) A)) B = Some res"
    by (simp add: plain_eval_def pg pl)
  ultimately show ?thesis using dr by blast
qed

theorem garbled_evaluation_equals_plaintext_witness:
  "circuit_ok mixed_circuit
   \<and> length [1::int] = length (alice mixed_circuit) \<and> set [1::int] \<subseteq> {0, 1}
   \<and> dom [2 \<mapsto> 1::int] = set (bob mixed_circuit) \<and> ran [2 \<mapsto> 1::int] \<subseteq> {0, 1}
   \<and> yao_run mixed_circuit sample_randomness [1] [2 \<mapsto> 1] = Inr [6 \<mapsto> 1]
   \<and> plain_eval mixed_circuit (map_of (zip (alice mixed_circuit) [1])) [2 \<mapsto> 1] = Some [6 \<mapsto> 1]"
proof -
  have ok: "circuit_ok mixed_circuit"
    by (simp add: circuit_ok_def mixed_circuit_def arity_ok_def wires_of_def)
  have la: "length [1::int] = length (alice mixed_circuit)" by (simp add: mixed_circuit_def)
  have A: "set [1::int] \<subseteq> {0, 1}" by simp
  have dB: "dom [2 \<mapsto> 1::int] = set (bob mixed_circuit)" by (simp add: mixed_circuit_def)
  have rB: "ran [2 \<mapsto> 1::int] \<subseteq> {0, 1}" by simp
  have pl: "plain_eval mixed_circuit (map_of (zip (alice mixed_circuit) [1])) [2 \<mapsto> 1]
              = Some [6 \<mapsto> 1]"
    by (simp add: plain_eval_def mixed_circuit_def map_add_def)
  from garbled_evaluation_equals_plaintext [OF ok la A dB rB, of sample_randomness] pl
  have "yao_run mixed_circuit sample_randomness [1] [2 \<mapsto> 1] = Inr [6 \<mapsto> 1]" by auto
  with ok la A dB rB pl show ?thesis by blast
qed

subsection \<open>Decoding the outputs\<close>

lemma decode_outputs_spec:
  "decode_outputs ws po outs acc = Inr res \<Longrightarrow>
   dom res = dom acc \<union> set outs
   \<and> (\<forall>w \<in> set outs. \<exists>k e p. ws w = Some (k, e) \<and> po w = Some p \<and> res w = Some (e XOR p))
   \<and> (\<forall>w. w \<notin> set outs \<longrightarrow> res w = acc w)"
proof (induction outs arbitrary: acc)
  case Nil
  then show ?case by simp
next
  case (Cons x xs)
  from Cons.prems obtain k e p where wx: "ws x = Some (k, e)" and px: "po x = Some p"
    and rec: "decode_outputs ws po xs (acc(x \<mapsto> e XOR p)) = Inr res"
    by (auto split: option.splits)
  from Cons.IH [OF rec] have d: "dom res = dom (acc(x \<mapsto> e XOR p)) \<union> set xs"
    and v: "\<forall>w \<in> set xs. \<exists>k e p. ws w = Some (k, e) \<and> po w = Some p \<and> res w = Some (e XOR p)"
    and o: "\<forall>w. w \<notin> set xs \<longrightarrow> res w = (acc(x \<mapsto> e XOR p)) w" by blast+
  have d': "dom res = dom acc \<union> set (x # xs)" using d by simp
  have v': "\<forall>w \<in> set (x # xs). \<exists>k e p. ws w = Some (k, e) \<and> po w = Some p \<and> res w = Some (e XOR p)"
  proof
    fix w assume w: "w \<in> set (x # xs)"
    show "\<exists>k e p. ws w = Some (k, e) \<and> po w = Some p \<and> res w = Some (e XOR p)"
    proof (cases "w \<in> set xs")
      case True
      with v show ?thesis by blast
    next
      case False
      with w have "w = x" by simp
      with False o wx px show ?thesis by simp
    qed
  qed
  have o': "\<forall>w. w \<notin> set (x # xs) \<longrightarrow> res w = acc w" using o by simp
  from d' v' o' show ?case by blast
qed

lemma decode_outputs_cong:
  "\<forall>w \<in> set outs. po w = po' w \<Longrightarrow> decode_outputs ws po outs acc = decode_outputs ws po' outs acc"
  by (induction outs arbitrary: acc) (auto split: option.splits)

text \<open>
  Claim C6.  When the evaluation returns, all gates have been processed and the result
  binds each output wire to its recovered external bit XOR the \<open>pbits_out\<close> value of
  that wire; the evaluation reads \<open>pbits_out\<close> at the output wires only, so permutation
  bits of other wires do not change it; and the \<open>pbits_out\<close> that \<^verbatim>\<open>server.py\<close> builds
  is defined on the output wires only.
\<close>

theorem output_bits_decoded_with_pbits_out:
  "(evaluate c T po a b = Inr res \<longrightarrow>
      (\<exists>ws. eval_gates T (gates c) (a ++ b) = Inr ws \<and> dom res = set (out c)
         \<and> (\<forall>w \<in> set (out c). \<exists>k e p. ws w = Some (k, e) \<and> po w = Some p
               \<and> res w = Some (e XOR p))))
   \<and> ((\<forall>w \<in> set (out c). po w = po' w) \<longrightarrow> evaluate c T po a b = evaluate c T po' a b)
   \<and> (server_pbits_out wires (out c) = Inr spo \<longrightarrow>
        dom spo = set (out c)
        \<and> (\<forall>w \<in> set (out c). \<exists>info. wires w = Some info \<and> wire_pbit info = spo w))"
proof -
  have p1: "evaluate c T po a b = Inr res \<longrightarrow>
      (\<exists>ws. eval_gates T (gates c) (a ++ b) = Inr ws \<and> dom res = set (out c)
         \<and> (\<forall>w \<in> set (out c). \<exists>k e p. ws w = Some (k, e) \<and> po w = Some p
               \<and> res w = Some (e XOR p)))"
  proof
    assume "evaluate c T po a b = Inr res"
    then obtain ws where eg: "eval_gates T (gates c) (a ++ b) = Inr ws"
      and de: "decode_outputs ws po (out c) Map.empty = Inr res"
      by (auto simp: evaluate_def split: sum.splits)
    from decode_outputs_spec [OF de] eg
    show "\<exists>ws. eval_gates T (gates c) (a ++ b) = Inr ws \<and> dom res = set (out c)
         \<and> (\<forall>w \<in> set (out c). \<exists>k e p. ws w = Some (k, e) \<and> po w = Some p
               \<and> res w = Some (e XOR p))" by auto
  qed
  have p2: "(\<forall>w \<in> set (out c). po w = po' w) \<longrightarrow> evaluate c T po a b = evaluate c T po' a b"
    by (auto simp: evaluate_def decode_outputs_cong split: sum.splits)
  have p3: "server_pbits_out wires (out c) = Inr spo \<longrightarrow>
        dom spo = set (out c)
        \<and> (\<forall>w \<in> set (out c). \<exists>info. wires w = Some info \<and> wire_pbit info = spo w)"
  proof
    assume "server_pbits_out wires (out c) = Inr spo"
    then have l: "pbits_out_loop (\<lambda>w. case wires w of None \<Rightarrow> None | Some info \<Rightarrow> wire_pbit info)
                   (out c) Map.empty = Inr spo" by (simp add: server_pbits_out_def)
    from pbits_out_loop_spec [OF l] have d: "dom spo = set (out c)"
      and v: "\<forall>w \<in> set (out c). spo w = (case wires w of None \<Rightarrow> None | Some info \<Rightarrow> wire_pbit info)"
      by simp_all
    have "\<forall>w \<in> set (out c). \<exists>info. wires w = Some info \<and> wire_pbit info = spo w"
    proof
      fix w assume w: "w \<in> set (out c)"
      with d obtain p where "spo w = Some p" by auto
      with v w show "\<exists>info. wires w = Some info \<and> wire_pbit info = spo w"
        by (cases "wires w") auto
    qed
    with d show "dom spo = set (out c)
        \<and> (\<forall>w \<in> set (out c). \<exists>info. wires w = Some info \<and> wire_pbit info = spo w)" by blast
  qed
  from p1 p2 p3 show ?thesis by blast
qed

theorem output_bits_decoded_with_pbits_out_witness:
  "evaluate and2_circuit [3 \<mapsto> [2 \<mapsto> Encrypted ''b1'' (Encrypted ''a1'' (Plain ''c1'' 0))]]
      [3 \<mapsto> 1] [1 \<mapsto> (''a1'', 0)] [2 \<mapsto> (''b1'', 1)] = Inr [3 \<mapsto> 1]
   \<and> out and2_circuit = [3] \<and> [3 \<mapsto> 1 :: int] (3::int) = [3 \<mapsto> 1, 1 \<mapsto> 0] (3::int)
   \<and> evaluate and2_circuit [3 \<mapsto> [2 \<mapsto> Encrypted ''b1'' (Encrypted ''a1'' (Plain ''c1'' 0))]]
      [3 \<mapsto> 1, 1 \<mapsto> 0] [1 \<mapsto> (''a1'', 0)] [2 \<mapsto> (''b1'', 1)] = Inr [3 \<mapsto> 1]
   \<and> server_pbits_out [3 \<mapsto> \<lparr>wire_type = ''OUT'', wire_pbit = Some 1\<rparr>] (out and2_circuit)
       = Inr [3 \<mapsto> 1]
   \<and> dom [3 \<mapsto> 1 :: int] = set (out and2_circuit)"
proof -
  have e: "evaluate and2_circuit [3 \<mapsto> [2 \<mapsto> Encrypted ''b1'' (Encrypted ''a1'' (Plain ''c1'' 0))]]
      [3 \<mapsto> 1] [1 \<mapsto> (''a1'', 0)] [2 \<mapsto> (''b1'', 1)] = Inr [3 \<mapsto> 1]"
    by (simp add: evaluate_def eval_gate_def and2_circuit_def map_add_def)
  have q: "\<forall>w \<in> set (out and2_circuit). [3 \<mapsto> 1 :: int] w = [3 \<mapsto> 1, 1 \<mapsto> 0] w"
    by (simp add: and2_circuit_def)
  have s: "server_pbits_out [3 \<mapsto> \<lparr>wire_type = ''OUT'', wire_pbit = Some 1\<rparr>] (out and2_circuit)
       = Inr [3 \<mapsto> 1]"
    by (simp add: server_pbits_out_def and2_circuit_def)
  have o: "out and2_circuit = [3]" by (simp add: and2_circuit_def)
  have q': "[3 \<mapsto> 1 :: int] (3::int) = [3 \<mapsto> 1, 1 \<mapsto> 0] (3::int)" by simp
  from output_bits_decoded_with_pbits_out [of and2_circuit
      "[3 \<mapsto> [2 \<mapsto> Encrypted ''b1'' (Encrypted ''a1'' (Plain ''c1'' 0))]]"
      "[3 \<mapsto> 1]" "[1 \<mapsto> (''a1'', 0)]" "[2 \<mapsto> (''b1'', 1)]" "[3 \<mapsto> 1]" "[3 \<mapsto> 1, 1 \<mapsto> 0]"
      "[3 \<mapsto> \<lparr>wire_type = ''OUT'', wire_pbit = Some 1\<rparr>]" "[3 \<mapsto> 1]"] e q s
  have r: "evaluate and2_circuit [3 \<mapsto> [2 \<mapsto> Encrypted ''b1'' (Encrypted ''a1'' (Plain ''c1'' 0))]]
      [3 \<mapsto> 1, 1 \<mapsto> 0] [1 \<mapsto> (''a1'', 0)] [2 \<mapsto> (''b1'', 1)] = Inr [3 \<mapsto> 1]"
    and d: "dom [3 \<mapsto> 1 :: int] = set (out and2_circuit)"
    by simp_all
  from e o q' r s d show ?thesis by blast
qed

subsection \<open>Rejected circuits\<close>

lemma check_gates_inputs:
  "check_gates D gs \<Longrightarrow> \<forall>g \<in> set gs. set (gate_in g) \<subseteq> set D \<union> gate_id ` set gs"
proof (induction gs arbitrary: D)
  case Nil
  then show ?case by simp
next
  case (Cons h gs)
  from Cons.prems have ih: "set (gate_in h) \<subseteq> set D" and rest: "check_gates (gate_id h # D) gs"
    by simp_all
  from Cons.IH [OF rest] have "\<forall>g \<in> set gs. set (gate_in g) \<subseteq> set (gate_id h # D) \<union> gate_id ` set gs" .
  with ih show ?case by auto
qed

lemma check_gates_fresh_ids:
  "check_gates D gs \<Longrightarrow> \<forall>g \<in> set gs. gate_id g \<notin> set D"
proof (induction gs arbitrary: D)
  case Nil
  then show ?case by simp
next
  case (Cons h gs)
  from Cons.prems have h: "gate_id h \<notin> set D" and rest: "check_gates (gate_id h # D) gs"
    by simp_all
  from Cons.IH [OF rest] have "\<forall>g \<in> set gs. gate_id g \<notin> set (gate_id h # D)" .
  with h show ?case by auto
qed

lemma check_gates_rank:
  "check_gates D gs \<Longrightarrow>
   \<exists>f :: wire \<Rightarrow> nat. (\<forall>w \<in> set D. f w = 0)
      \<and> (\<forall>g \<in> set gs. \<forall>u \<in> set (gate_in g). f u < f (gate_id g))"
proof (induction gs arbitrary: D)
  case Nil
  show ?case by (rule exI [of _ "\<lambda>w. 0"]) simp
next
  case (Cons h gs)
  from Cons.prems have ih: "set (gate_in h) \<subseteq> set D" and hD: "gate_id h \<notin> set D"
    and rest: "check_gates (gate_id h # D) gs" by simp_all
  from Cons.IH [OF rest] obtain f' :: "wire \<Rightarrow> nat" where
    z: "\<forall>w \<in> set (gate_id h # D). f' w = 0"
    and inc: "\<forall>g \<in> set gs. \<forall>u \<in> set (gate_in g). f' u < f' (gate_id g)" by blast
  from check_gates_fresh_ids [OF rest] have fr: "\<forall>g \<in> set gs. gate_id g \<notin> set D" by simp
  define f where "f = (\<lambda>w. if w \<in> set D then 0 else Suc (f' w))"
  have a: "\<forall>w \<in> set D. f w = 0" by (simp add: f_def)
  have b: "\<forall>u \<in> set (gate_in h). f u < f (gate_id h)"
    using ih hD by (auto simp: f_def)
  have c: "\<forall>g \<in> set gs. \<forall>u \<in> set (gate_in g). f u < f (gate_id g)"
  proof (intro ballI)
    fix g u assume g: "g \<in> set gs" and u: "u \<in> set (gate_in g)"
    from fr g have "gate_id g \<notin> set D" by blast
    then have fg: "f (gate_id g) = Suc (f' (gate_id g))" by (simp add: f_def)
    from inc g u have "f' u < f' (gate_id g)" by blast
    then show "f u < f (gate_id g)" unfolding fg by (simp add: f_def)
  qed
  from a b c have "(\<forall>w \<in> set D. f w = 0)
      \<and> (\<forall>g \<in> set (h # gs). \<forall>u \<in> set (gate_in g). f u < f (gate_id g))" by simp
  then show ?case by blast
qed

lemma circuit_ok_acyclic:
  assumes "circuit_ok c"
  shows "\<not> cyclic c"
proof
  assume "cyclic c"
  then obtain w where w: "(w, w) \<in> (depends c)\<^sup>+" by (auto simp: cyclic_def)
  from assms have "check_gates (alice c @ bob c) (gates c)" by (simp add: circuit_ok_def)
  from check_gates_rank [OF this] obtain f :: "wire \<Rightarrow> nat" where
    inc: "\<forall>g \<in> set (gates c). \<forall>u \<in> set (gate_in g). f u < f (gate_id g)" by blast
  have step: "\<And>u v. (u, v) \<in> depends c \<Longrightarrow> f u < f v"
    using inc by (auto simp: depends_def)
  have "\<And>u v. (u, v) \<in> (depends c)\<^sup>+ \<Longrightarrow> f u < f v"
  proof -
    fix u v assume "(u, v) \<in> (depends c)\<^sup>+"
    then show "f u < f v"
    proof (induction rule: trancl_induct)
      case (base y)
      then show ?case by (rule step)
    next
      case (step y z)
      from step.hyps(2) have "f y < f z" by (rule \<open>\<And>u v. (u, v) \<in> depends c \<Longrightarrow> f u < f v\<close>)
      with step.IH show ?case by simp
    qed
  qed
  from this [OF w] show False by simp
qed

lemma circuit_ok_not_dangling:
  assumes "circuit_ok c"
  shows "\<not> dangling c"
proof
  assume "dangling c"
  then obtain g u where g: "g \<in> set (gates c)" and u: "u \<in> set (gate_in g)"
    and nu: "u \<notin> set (wires_of c)" by (auto simp: dangling_def)
  from assms have "check_gates (alice c @ bob c) (gates c)" by (simp add: circuit_ok_def)
  from check_gates_inputs [OF this] g u
  have "u \<in> set (alice c @ bob c) \<union> gate_id ` set (gates c)" by blast
  with nu show False by (auto simp: wires_of_def)
qed

text \<open>
  Claim C7.  For a circuit with a cycle or with a gate that reads an undeclared wire,
  garbling fails with \<open>CircuitMalformed\<close>, no garbled circuit (hence no table) is
  produced, and Alice's run ends with that error before anything is sent.
\<close>

theorem malformed_circuit_is_rejected:
  assumes "cyclic c \<or> dangling c"
  shows "GarbledCircuit c rnd = Inl CircuitMalformed
    \<and> (\<forall>gc. GarbledCircuit c rnd \<noteq> Inr gc)
    \<and> Alice_run c rnd oblivious_transfer ls = ([], Some CircuitMalformed)"
proof -
  from assms circuit_ok_acyclic circuit_ok_not_dangling have "\<not> circuit_ok c" by blast
  then have g: "GarbledCircuit c rnd = Inl CircuitMalformed" by (simp add: GarbledCircuit_def)
  then show ?thesis by (simp add: Alice_run_def)
qed

theorem malformed_circuit_is_rejected_witness:
  "cyclic loop_circuit \<and> dangling dangling_circuit
   \<and> GarbledCircuit loop_circuit sample_randomness = Inl CircuitMalformed
   \<and> Alice_run loop_circuit sample_randomness True [IntVal 1] = ([], Some CircuitMalformed)
   \<and> GarbledCircuit dangling_circuit sample_randomness = Inl CircuitMalformed
   \<and> Alice_run dangling_circuit sample_randomness True [IntVal 1] = ([], Some CircuitMalformed)"
proof -
  have "(3, 4) \<in> depends loop_circuit" "(4, 3) \<in> depends loop_circuit"
    by (simp_all add: depends_def loop_circuit_def)
  then have "(3, 3) \<in> (depends loop_circuit)\<^sup>+" by (rule trancl_into_trancl2 [OF _ r_into_trancl])
  then have cy: "cyclic loop_circuit" by (auto simp: cyclic_def)
  have da: "dangling dangling_circuit"
    by (simp add: dangling_def dangling_circuit_def wires_of_def)
  from cy have h1: "cyclic loop_circuit \<or> dangling loop_circuit" by simp
  from da have h2: "cyclic dangling_circuit \<or> dangling dangling_circuit" by simp
  from malformed_circuit_is_rejected [OF h1, of sample_randomness True "[IntVal 1]"]
       malformed_circuit_is_rejected [OF h2, of sample_randomness True "[IntVal 1]"] cy da
  show ?thesis by simp
qed

end
